theory Spec2Isabelle
  imports Main "HOL-Library.Sublist"
begin

section \<open>The flat record and the outcome of a call\<close>

text \<open>
  The metadata dictionary \<open>md\<close> of \<^verbatim>\<open>importformats.py\<close> is a Python dict from
  path keys to values. The values that occur are strings (element text, attribute
  values), integers (the \<open>.count\<close> cardinalities) and \<open>None\<close> (the text of an element
  without text).
\<close>

datatype val = VStr string | VInt int | VNone

type_synonym flat_record = "string \<rightharpoonup> val"

text \<open>
  Exceptions are values. \<open>RecursionError\<close> is what the interpreter raises when a call
  finds no stack frame left; \<open>OtherError\<close> stands for every exception class that the
  module itself never raises.
\<close>

datatype error = RecursionError | TypeError | KeyError | IndexError | XMLSyntaxError
  | OtherError string

text \<open>
  A procedure that mutates its argument in place either returns or raises; in both
  cases the caller sees the mutations made so far, so both outcomes carry the state.
\<close>

datatype 's result = Return 's | Raise error 's

fun state_of :: "'s result \<Rightarrow> 's" where
  "state_of (Return s) = s"
| "state_of (Raise e s) = s"

fun and_then :: "'s result \<Rightarrow> ('s \<Rightarrow> 's result) \<Rightarrow> 's result" where
  "and_then (Return s) f = f s"
| "and_then (Raise e s) f = Raise e s"

text \<open>
  The state of a projection: the dictionary, and a log of the callback invocations
  made at line 66 of the source (\<open>callback(source, dest, md)\<close>), oldest first. The log
  is not data of the program; it records which calls the program made.
\<close>

record state =
  md :: flat_record
  calls :: "(string \<times> string) list"

text \<open>
  Every function takes as first argument the number of stack frames still available,
  its own included: with none left the call raises \<open>RecursionError\<close>, otherwise its
  body runs and the calls it makes have one frame less.
\<close>

type_synonym callback = "nat \<Rightarrow> string \<Rightarrow> string \<Rightarrow> state \<Rightarrow> state result"

section \<open>Python primitives used by the module\<close>

text \<open>Truth value of an object, as tested by \<open>if not count\<close>.\<close>

fun truthy :: "val \<Rightarrow> bool" where
  "truthy (VStr s) = (s \<noteq> [])"
| "truthy (VInt n) = (n \<noteq> 0)"
| "truthy VNone = False"

text \<open>\<open>range(count)\<close>: the indices below an integer, \<open>TypeError\<close> for anything else.\<close>

fun py_range :: "val \<Rightarrow> error + nat list" where
  "py_range (VInt n) = Inr [0..<nat n]"
| "py_range v = Inl TypeError"

text \<open>A \<open>for\<close> loop over a list of indices; an exception in the body ends the loop.\<close>

fun for_each :: "(nat \<Rightarrow> 's \<Rightarrow> 's result) \<Rightarrow> nat list \<Rightarrow> 's \<Rightarrow> 's result" where
  "for_each body [] s = Return s"
| "for_each body (i # idxs) s = and_then (body i s) (for_each body idxs)"

text \<open>\<open>'%d' % i\<close> for a natural number: its decimal digits.\<close>

definition digit_char :: "nat \<Rightarrow> char" where
  "digit_char n = ''0123456789'' ! n"

function show_nat :: "nat \<Rightarrow> string" where
  "show_nat n =
     (if n < 10 then [digit_char n] else show_nat (n div 10) @ [digit_char (n mod 10)])"
  by pat_completeness auto
termination
  by (relation "measure id") auto

declare show_nat.simps [simp del]

text \<open>\<open>'%s.%d' % (key, i)\<close>\<close>

definition indexed :: "string \<Rightarrow> nat \<Rightarrow> string" where
  "indexed key i = key @ ''.'' @ show_nat i"

text \<open>\<open>str.lower()\<close> on ASCII letters.\<close>

definition lower_char :: "char \<Rightarrow> char" where
  "lower_char c =
     (case map_of (zip ''ABCDEFGHIJKLMNOPQRSTUVWXYZ'' ''abcdefghijklmnopqrstuvwxyz'') c of
        None \<Rightarrow> c
      | Some l \<Rightarrow> l)"

definition lower :: "string \<Rightarrow> string" where
  "lower s = map lower_char s"

section \<open>\<open>ExceptReturn\<close>\<close>

text \<open>
  An exception object as the handler of \<open>ExceptReturn\<close> uses it: its class, which the
  \<open>except\<close> clause tests, and what \<open>'%s' % e\<close> at line 28 does with it, which is
  to call \<open>e.__str__()\<close>: that call returns the text of the exception, or raises an
  exception of its own.
\<close>

datatype exc = Exc (class_of: error) (formatted: "exc + string")

text \<open>
  The decorated function \<open>f\<close> is any Python callable: it takes its arguments and the
  world \<open>w\<close> it may mutate, and either returns a value or raises, leaving a new world.
\<close>

datatype ('r, 'w) outcome = Value 'r 'w | Exception exc 'w

text \<open>The records that the wrapper hands to the logger \<open>log\<close>, oldest first.\<close>

datatype level = DEBUG | ERROR

type_synonym log = "(level \<times> string) list"

text \<open>
  \<open>ExceptReturn(exception, returns)(f)\<close> is the closure \<open>call\<close>; the definition below is
  \<open>call(*args)\<close>. The exception class of the \<open>except\<close> clause is the predicate
  \<open>exception\<close> on classes. Line 25 logs \<open>call()\<close>, then \<open>f\<close> runs. In the handler, line 28
  first builds the message \<open>'Exception occurred: %s' % e\<close>: when that raises, the handler
  is left by the new exception before anything is logged and before line 29; otherwise
  the message is logged and \<open>returns\<close> is returned. (The \<open>log.debug\<close> calls of lines 30
  and 32 run when the function is decorated, not when it is called.)
\<close>

definition ExceptReturn ::
  "(error \<Rightarrow> bool) \<Rightarrow> 'r \<Rightarrow> ('a \<Rightarrow> 'w \<Rightarrow> ('r, 'w) outcome) \<Rightarrow> 'a \<Rightarrow> 'w \<Rightarrow> log
     \<Rightarrow> ('r, 'w \<times> log) outcome" where
  "ExceptReturn exception returns f args w log =
     (let log = log @ [(DEBUG, ''call()'')] in
      case f args w of
        Value r w' \<Rightarrow> Value r (w', log)
      | Exception e w' \<Rightarrow>
          if exception (class_of e) then
            (case formatted e of
               Inl e' \<Rightarrow> Exception e' (w', log)
             | Inr msg \<Rightarrow> Value returns (w', log @ [(ERROR, ''Exception occurred: '' @ msg)]))
          else Exception e (w', log))"

section \<open>\<open>copy_element\<close>\<close>

text \<open>
  \<open>callback(source, dest, md)\<close> at line 66. The log of a call to \<open>copy_element\<close> holds
  the invocations that this call and its recursive calls make at line 66, one entry
  each. What the callback does while it runs is not part of that log: a callback that
  calls \<open>copy_element\<close> itself, as \<open>document_attrs\<close> does with \<open>person_attrs\<close>, runs
  with an empty log of its own, which is dropped when it ends.
\<close>

fun with_calls :: "(string \<times> string) list \<Rightarrow> state result \<Rightarrow> state result" where
  "with_calls L (Return s) = Return (s\<lparr>calls := L\<rparr>)"
| "with_calls L (Raise e s) = Raise e (s\<lparr>calls := L\<rparr>)"

definition invoke :: "callback \<Rightarrow> nat \<Rightarrow> string \<Rightarrow> string \<Rightarrow> state \<Rightarrow> state result" where
  "invoke f d source dest s =
     with_calls (calls s @ [(source, dest)]) (f d source dest (s\<lparr>calls := []\<rparr>))"

fun copy_element ::
  "nat \<Rightarrow> string \<Rightarrow> string \<Rightarrow> state \<Rightarrow> callback option \<Rightarrow> state result" where
  "copy_element 0 source dest s callback = Raise RecursionError s"
| "copy_element (Suc d) source dest s callback =
    (if source \<in> dom (md s) then
       and_then (Return (s\<lparr>md := (md s)(dest := md s source)\<rparr>)) (\<lambda>s.
       and_then (copy_element d (source @ ''/language'') (dest @ ''/language'') s None) (\<lambda>s.
       and_then (copy_element d (source @ ''/@lang'') (dest @ ''/language'') s None) (\<lambda>s.
       and_then (copy_element d (source @ ''/@xml:lang'') (dest @ ''/language'') s None) (\<lambda>s.
       and_then (copy_element d (source @ ''/@rdf:resource'') dest s None) (\<lambda>s.
       (case callback of None \<Rightarrow> Return s | Some f \<Rightarrow> invoke f d source dest s))))))
     else
       (let count = (case md s (source @ ''.count'') of None \<Rightarrow> VInt 0 | Some c \<Rightarrow> c) in
        if \<not> truthy count then Return s
        else
          (let s1 = s\<lparr>md := (md s)(dest @ ''.count'' \<mapsto> count)\<rparr> in
           case py_range count of
             Inl e \<Rightarrow> Raise e s1
           | Inr idxs \<Rightarrow>
               for_each (\<lambda>i s. copy_element d (indexed source i) (indexed dest i) s callback)
                 idxs s1)))"

section \<open>The attribute callbacks\<close>

fun person_attrs :: callback where
  "person_attrs 0 source dest result = Raise RecursionError result"
| "person_attrs (Suc d) source dest result =
     and_then (copy_element d (source @ ''/foaf:name'') (dest @ ''/name'') result None) (\<lambda>result.
     and_then (copy_element d (source @ ''/foaf:mbox'') (dest @ ''/email'') result None) (\<lambda>result.
     copy_element d (source @ ''/foaf:phone'') (dest @ ''/phone'') result None))"

fun document_attrs :: callback where
  "document_attrs 0 source dest result = Raise RecursionError result"
| "document_attrs (Suc d) source dest result =
     and_then (copy_element d (source @ ''/dct:title'') (dest @ ''/title'') result None) (\<lambda>result.
     and_then (copy_element d (source @ ''/dct:identifier'') dest result None) (\<lambda>result.
     and_then (copy_element d (source @ ''/dct:creator'') (dest @ ''/creator.0/name'') result None)
       (\<lambda>result.
     and_then (copy_element d (source @ ''/nrd:creator'') (dest @ ''/creator'') result
                 (Some person_attrs)) (\<lambda>result.
     copy_element d (source @ ''/dct:description'') (dest @ ''/description'') result None))))"

fun funding_attrs :: callback where
  "funding_attrs 0 source dest result = Raise RecursionError result"
| "funding_attrs (Suc d) source dest result =
     and_then (copy_element d (source @ ''/rev:arpfo:funds.0/arpfo:grantNumber'')
                 (dest @ ''/fundingNumber'') result None) (\<lambda>result.
     copy_element d (source @ ''/rev:arpfo:funds.0/rev:arpfo:provides'') (dest @ ''/funder'')
       result (Some person_attrs))"

fun file_attrs :: callback where
  "file_attrs 0 source dest result = Raise RecursionError result"
| "file_attrs (Suc d) source dest result =
     and_then (copy_element d (source @ ''/dcat:mediaType'') (dest @ ''/mimetype'') result None)
       (\<lambda>result.
     and_then (copy_element d (source @ ''/fp:checksum.0/fp:checksumValue.0'')
                 (dest @ ''/checksum.0'') result None) (\<lambda>result.
     and_then (copy_element d (source @ ''/fp:checksum.0/fp:generator.0'')
                 (dest @ ''/checksum.0/algorithm'') result None) (\<lambda>result.
     copy_element d (source @ ''/dcat:byteSize'') (dest @ ''/size'') result None)))"

section \<open>\<open>nrd_metadata_reader\<close>\<close>

definition mapping :: "(string \<times> string \<times> callback option) list" where
  "mapping =
    [(''dataset'', ''versionidentifier'', None),
     (''dataset/nrd:continuityIdentifier'', ''continuityidentifier'', None),
     (''dataset/rev:foaf:primaryTopic.0/nrd:metadataIdentifier'', ''metadata/identifier'', None),
     (''dataset/rev:foaf:primaryTopic.0/nrd:metadataModified'', ''metadata/modified'', None),
     (''dataset/dct:title'', ''title'', None),
     (''dataset/nrd:modified'', ''modified'', None),
     (''dataset/nrd:rights'', ''rights'', None),
     (''dataset/nrd:language'', ''language'', None),
     (''dataset/nrd:owner'', ''owner'', Some person_attrs),
     (''dataset/nrd:creator'', ''creator'', Some person_attrs),
     (''dataset/nrd:distributor'', ''distributor'', Some person_attrs),
     (''dataset/nrd:contributor'', ''contributor'', Some person_attrs),
     (''dataset/nrd:subject'', ''subject'', None),
     (''dataset/nrd:producerProject'', ''project'', Some funding_attrs),
     (''dataset/dct:isPartOf'', ''collection'', Some document_attrs),
     (''dataset/dct:requires'', ''requires'', None),
     (''dataset/nrd:discipline'', ''discipline'', None),
     (''dataset/nrd:temporal'', ''temporalcoverage'', None),
     (''dataset/nrd:spatial'', ''spatialcoverage'', None),
     (''dataset/nrd:manifestation'', ''resource'', Some file_attrs),
     (''dataset/nrd:observationMatrix'', ''variables'', None),
     (''dataset/nrd:usedByPublication'', ''publication'', Some document_attrs),
     (''dataset/dct:description'', ''description'', None)]"

text \<open>\<open>for source, dest, callback in mapping: copy_element(source, dest, result, callback)\<close>\<close>

fun apply_mapping ::
  "nat \<Rightarrow> (string \<times> string \<times> callback option) list \<Rightarrow> state \<Rightarrow> state result" where
  "apply_mapping d [] s = Return s"
| "apply_mapping d ((source, dest, callback) # rules) s =
     and_then (copy_element d source dest s callback) (apply_mapping d rules)"

text \<open>
  What the rights pass reads of an \<open>lxml\<close> element: its attributes, its text and its
  children. \<open>lxml.etree.XML\<close> is a library function; the reader takes it as the
  parameter \<open>XML\<close>, \<open>None\<close> standing for \<open>XMLSyntaxError\<close>. Given anything but a
  string it raises \<open>ValueError\<close>.
\<close>

datatype element =
  Element (attrib: "(string \<times> string) list") (text_of: "string option") (children: "element list")

text \<open>\<open>result[key] = rights[0].text\<close>\<close>

definition set_first_child_text :: "string \<Rightarrow> element \<Rightarrow> flat_record \<Rightarrow> flat_record result" where
  "set_first_child_text key rights result =
     (case children rights of
        [] \<Rightarrow> Raise IndexError result
      | child # others \<Rightarrow>
          Return (result(key \<mapsto> (case text_of child of None \<Rightarrow> VNone | Some t \<Rightarrow> VStr t))))"

text \<open>The body of the \<open>try\<close> statement, lines 151 to 157.\<close>

definition rights_block :: "(string \<Rightarrow> element option) \<Rightarrow> flat_record \<Rightarrow> flat_record result" where
  "rights_block XML result =
     (case result ''rights'' of
        None \<Rightarrow> Raise KeyError result
      | Some (VInt n) \<Rightarrow> Raise (OtherError ''ValueError'') result
      | Some VNone \<Rightarrow> Raise (OtherError ''ValueError'') result
      | Some (VStr markup) \<Rightarrow>
          (case XML markup of
             None \<Rightarrow> Raise XMLSyntaxError result
           | Some rights \<Rightarrow>
               (case map_of (attrib rights) ''RIGHTSCATEGORY'' of
                  None \<Rightarrow> Raise KeyError result
                | Some category \<Rightarrow>
                    (let rightsclass = lower category;
                         result = result(''rightsclass'' \<mapsto> VStr rightsclass)
                     in
                       and_then
                         (if rightsclass = ''licensed''
                          then set_first_child_text ''license'' rights result
                          else Return result) (\<lambda>result.
                       if rightsclass = ''contractual''
                       then set_first_child_text ''accessURL'' rights result
                       else Return result)))))"

text \<open>\<open>try: ... except: pass\<close>: whatever was raised, the dictionary is kept as it is.\<close>

definition rights_pass :: "(string \<Rightarrow> element option) \<Rightarrow> flat_record \<Rightarrow> flat_record" where
  "rights_pass XML result = state_of (rights_block XML result)"

text \<open>
  The reader from the flat record on: \<open>record\<close> is the map that
  \<open>rdf_reader(xml).getMap()\<close> returned (that reader is in \<open>importcore\<close>), and the
  result is the map handed to \<open>oc.Metadata\<close>.
\<close>

fun nrd_metadata_reader ::
  "nat \<Rightarrow> (string \<Rightarrow> element option) \<Rightarrow> flat_record \<Rightarrow> error + flat_record" where
  "nrd_metadata_reader 0 XML record = Inl RecursionError"
| "nrd_metadata_reader (Suc d) XML record =
     (case apply_mapping d mapping \<lparr>md = record, calls = []\<rparr> of
        Raise e s \<Rightarrow> Inl e
      | Return s \<Rightarrow> Inr (rights_pass XML (md s)))"

section \<open>Predicates used in the statements\<close>

text \<open>
  \<open>frame dest s s'\<close>: from \<open>s\<close> to \<open>s'\<close> no key was deleted, every key that does not
  begin with \<open>dest\<close> kept its value, and no callback was invoked.
\<close>

definition frame :: "string \<Rightarrow> state \<Rightarrow> state \<Rightarrow> bool" where
  "frame dest s s' \<longleftrightarrow>
     dom (md s) \<subseteq> dom (md s') \<and> (\<forall>k. \<not> prefix dest k \<longrightarrow> md s' k = md s k) \<and> calls s' = calls s"

text \<open>The exceptions that \<open>copy_element\<close> raises by itself.\<close>

definition own_errors :: "'s result \<Rightarrow> bool" where
  "own_errors r \<longleftrightarrow> (\<forall>e s. r = Raise e s \<longrightarrow> e = RecursionError \<or> e = TypeError)"

text \<open>A callback that deletes no key, whether it returns or raises.\<close>

definition well_behaved :: "callback \<Rightarrow> bool" where
  "well_behaved f \<longleftrightarrow>
     (\<forall>d source dest s. dom (md s) \<subseteq> dom (md (state_of (f d source dest s))))"

text \<open>
  The suffixes under which \<open>copy_element\<close> looks for the language and the resource of
  a scalar element, and the records in which each of those four keys of \<open>source\<close> is a
  leaf: no key lies below it.
\<close>

definition variants :: "string set" where
  "variants = {''/language'', ''/@lang'', ''/@xml:lang'', ''/@rdf:resource''}"

definition leaf_variants :: "flat_record \<Rightarrow> string \<Rightarrow> bool" where
  "leaf_variants m source \<longleftrightarrow> (\<forall>w \<in> variants. \<forall>x. x \<noteq> [] \<longrightarrow> m (source @ w @ x) = None)"

text \<open>\<open>dest\<close> is none of the four variant keys of \<open>source\<close> and lies below none of them.\<close>

definition clear_of_variants :: "string \<Rightarrow> string \<Rightarrow> bool" where
  "clear_of_variants source dest \<longleftrightarrow> (\<forall>w \<in> variants. \<not> prefix (source @ w) dest)"

text \<open>
  \<open>shallow n source m\<close>: every key of \<open>m\<close> that begins with \<open>source\<close> is less than \<open>n\<close>
  characters longer than \<open>source\<close>. \<open>integer_counts source m\<close>: every count of \<open>m\<close>
  at or below \<open>source\<close> is an integer.
\<close>

definition shallow :: "nat \<Rightarrow> string \<Rightarrow> flat_record \<Rightarrow> bool" where
  "shallow n source m \<longleftrightarrow> (\<forall>k. prefix source k \<and> k \<in> dom m \<longrightarrow> length k < length source + n)"

definition integer_counts :: "string \<Rightarrow> flat_record \<Rightarrow> bool" where
  "integer_counts source m \<longleftrightarrow>
     (\<forall>k v. prefix source k \<and> m (k @ ''.count'') = Some v \<longrightarrow> (\<exists>i. v = VInt i))"

text \<open>
  A callback that needs at most \<open>c\<close> stack frames more than the keys below its
  \<open>source\<close> are long: called with that many frames, with \<open>source\<close> and \<open>dest\<close> neither a
  prefix of the other and integer counts below \<open>source\<close>, it returns, and it has
  changed no key that does not begin with \<open>dest\<close>.
\<close>

definition tame :: "nat \<Rightarrow> callback \<Rightarrow> bool" where
  "tame c f \<longleftrightarrow>
     (\<forall>n source dest s.
        \<not> prefix source dest \<and> \<not> prefix dest source \<and>
        shallow n source (md s) \<and> integer_counts source (md s) \<longrightarrow>
        (\<exists>s'. f (n + c) source dest s = Return s' \<and>
              (\<forall>k. \<not> prefix dest k \<longrightarrow> md s' k = md s k)))"

text \<open>
  Locality of a call. \<open>R\<close> is a set of keys; two states agree on \<open>R\<close> when they have the
  same entries there. A call \<open>g\<close> is local at \<open>s\<close> when, in every state that agrees
  with \<open>s\<close> on \<open>R\<close>, it does the same thing: it adds one fixed map \<open>W\<close> of entries
  outside \<open>R\<close>, appends one fixed list \<open>L\<close> to the log, and ends the same way (\<open>None\<close>
  for a return, \<open>Some e\<close> for the exception \<open>e\<close>).
\<close>

definition agree_on :: "string set \<Rightarrow> state \<Rightarrow> state \<Rightarrow> bool" where
  "agree_on R s s' \<longleftrightarrow> (\<forall>k \<in> R. md s' k = md s k)"

definition effect :: "flat_record \<Rightarrow> (string \<times> string) list \<Rightarrow> state \<Rightarrow> state" where
  "effect W L s = s\<lparr>md := md s ++ W, calls := calls s @ L\<rparr>"

fun finish :: "error option \<Rightarrow> state \<Rightarrow> state result" where
  "finish None s = Return s"
| "finish (Some e) s = Raise e s"

definition local_on :: "string set \<Rightarrow> state \<Rightarrow> (state \<Rightarrow> state result) \<Rightarrow> bool" where
  "local_on R s g \<longleftrightarrow>
     (\<exists>c W L. dom W \<inter> R = {} \<and> (\<forall>s'. agree_on R s s' \<longrightarrow> g s' = finish c (effect W L s')))"

text \<open>\<open>R\<close> holds every key below a key it holds; no key below \<open>dest\<close> is in \<open>R\<close>.\<close>

definition closed_below :: "string set \<Rightarrow> bool" where
  "closed_below R \<longleftrightarrow> (\<forall>k x. k \<in> R \<longrightarrow> k @ x \<in> R)"

definition outside :: "string set \<Rightarrow> string \<Rightarrow> bool" where
  "outside R dest \<longleftrightarrow> (\<forall>y. dest @ y \<notin> R)"

definition local_callback :: "string set \<Rightarrow> callback option \<Rightarrow> bool" where
  "local_callback R callback \<longleftrightarrow>
     (case callback of
        None \<Rightarrow> True
      | Some f \<Rightarrow> \<forall>d source dest s. source \<in> R \<and> outside R dest \<longrightarrow> local_on R s (f d source dest))"

text \<open>
  An outcome that leaves a state in which \<open>I\<close> holds and that, if it is an exception,
  is one that \<open>A\<close> allows.
\<close>

definition good :: "(error \<Rightarrow> bool) \<Rightarrow> (state \<Rightarrow> bool) \<Rightarrow> state result \<Rightarrow> bool" where
  "good A I r \<longleftrightarrow> I (state_of r) \<and> (\<forall>e s. r = Raise e s \<longrightarrow> A e)"

section \<open>Sample inputs\<close>

text \<open>
  A callable for \<open>ExceptReturn\<close>: its world is the number of times it has been called;
  on \<open>0\<close> it raises a \<open>KeyError\<close> whose text is \<open>0\<close>, and it returns its argument
  otherwise.
\<close>

definition counted_lookup :: "int \<Rightarrow> nat \<Rightarrow> (int, nat) outcome" where
  "counted_lookup a n =
     (if a = 0 then Exception (Exc KeyError (Inr ''0'')) (Suc n) else Value a (Suc n))"

text \<open>
  A \<open>KeyError\<close> whose \<open>__str__\<close> raises a \<open>TypeError\<close>, and a callable that raises it.
\<close>

definition unprintable :: exc where
  "unprintable = Exc KeyError (Inl (Exc TypeError (Inr ''__str__ returned non-string'')))"

definition counted_unprintable :: "int \<Rightarrow> nat \<Rightarrow> (int, nat) outcome" where
  "counted_unprintable a n = Exception unprintable (Suc n)"

text \<open>The classes of two \<open>except\<close> clauses: \<open>except KeyError\<close> and \<open>except IndexError\<close>.\<close>

definition is_KeyError :: "error \<Rightarrow> bool" where
  "is_KeyError c \<longleftrightarrow> c = KeyError"

definition is_IndexError :: "error \<Rightarrow> bool" where
  "is_IndexError c \<longleftrightarrow> c = IndexError"

text \<open>The flat record of the scenario in the specification.\<close>

definition scenario_record :: flat_record where
  "scenario_record =
     [''dataset/dct:title'' \<mapsto> VStr ''Sample'',
      ''dataset/nrd:creator.count'' \<mapsto> VInt 2,
      ''dataset/nrd:creator.0/foaf:name'' \<mapsto> VStr ''Alice'',
      ''dataset/nrd:creator.1/foaf:name'' \<mapsto> VStr ''Bob'']"

text \<open>
  The same record when each creator instance has a key of its own, holding \<open>v0\<close> and
  \<open>v1\<close>.
\<close>

definition scenario_record_with_instances :: "val \<Rightarrow> val \<Rightarrow> flat_record" where
  "scenario_record_with_instances v0 v1 =
     [''dataset/dct:title'' \<mapsto> VStr ''Sample'',
      ''dataset/nrd:creator.count'' \<mapsto> VInt 2,
      ''dataset/nrd:creator.0'' \<mapsto> v0,
      ''dataset/nrd:creator.0/foaf:name'' \<mapsto> VStr ''Alice'',
      ''dataset/nrd:creator.1'' \<mapsto> v1,
      ''dataset/nrd:creator.1/foaf:name'' \<mapsto> VStr ''Bob'']"



text \<open>
  A stand-in for \<open>lxml.etree.XML\<close> that knows one document, a rights declaration of
  category \<open>LICENSED\<close> without children. Every other string is a syntax error.
\<close>

definition sample_XML :: "string \<Rightarrow> element option" where
  "sample_XML markup =
     (if markup = ''<rights RIGHTSCATEGORY='LICENSED'/>''
      then Some (Element [(''RIGHTSCATEGORY'', ''LICENSED'')] None [])
      else None)"

text \<open>
  An element with its three language variants, and the same element when the
  \<open>@xml:lang\<close> variant has a resource of its own.
\<close>

definition language_record :: flat_record where
  "language_record =
     [''x'' \<mapsto> VStr ''text'', ''x/language'' \<mapsto> VStr ''en'', ''x/@lang'' \<mapsto> VStr ''fi'',
      ''x/@xml:lang'' \<mapsto> VStr ''sv'']"

definition nested_language_record :: flat_record where
  "nested_language_record =
     [''x'' \<mapsto> VStr ''text'', ''x/language'' \<mapsto> VStr ''en'', ''x/@lang'' \<mapsto> VStr ''fi'',
      ''x/@xml:lang'' \<mapsto> VStr ''sv'', ''x/@xml:lang/@rdf:resource'' \<mapsto> VStr ''http://l'']"

text \<open>An element with a text and a resource.\<close>

definition resource_record :: flat_record where
  "resource_record = [''x'' \<mapsto> VStr ''text'', ''x/@rdf:resource'' \<mapsto> VStr ''http://ex'']"

text \<open>A language tag that has a language tag of its own.\<close>

definition shifting_record :: flat_record where
  "shifting_record = [''a/language'' \<mapsto> VStr ''1'', ''a/language/language'' \<mapsto> VStr ''2'']"

section \<open>Basic facts\<close>

lemma show_nat_digit: "show_nat n \<noteq> [] \<and> hd (show_nat n) \<in> set ''0123456789''"
proof (induction n rule: show_nat.induct)
  case (1 n)
  show ?case
  proof (cases "n < 10")
    case True
    then have "''0123456789'' ! n \<in> set ''0123456789''"
      by (intro nth_mem) simp
    with True show ?thesis
      by (subst (1 2) show_nat.simps) (simp add: digit_char_def)
  next
    case False
    with 1 show ?thesis
      by (subst (1 2) show_nat.simps) simp
  qed
qed

lemma show_nat_not_count: "show_nat n @ x \<noteq> ''count'' @ y"
proof
  assume eq: "show_nat n @ x = ''count'' @ y"
  obtain c cs where c: "show_nat n = c # cs" "c \<in> set ''0123456789''"
    using show_nat_digit [of n] by (cases "show_nat n") auto
  from eq c show False by auto
qed

lemma prefix_indexed: "prefix key (indexed key i)"
  by (simp add: indexed_def)

subsection \<open>The frame of a projection\<close>

lemma frame_refl: "frame dest s s"
  by (simp add: frame_def)

lemma frame_trans: "frame dest s s1 \<Longrightarrow> frame dest s1 s2 \<Longrightarrow> frame dest s s2"
  by (auto simp: frame_def)

lemma frame_mono: "prefix dest dest' \<Longrightarrow> frame dest' s s' \<Longrightarrow> frame dest s s'"
  unfolding frame_def by (meson prefix_order.trans)

lemma frame_and_then:
  assumes "frame t s (state_of r)" and "\<And>s1. frame t s1 (state_of (f s1))"
  shows "frame t s (state_of (and_then r f))"
proof (cases r)
  case (Return s1)
  with assms show ?thesis by (auto intro: frame_trans)
next
  case (Raise e s1)
  with assms show ?thesis by simp
qed

lemma frame_for_each:
  assumes "\<And>i s. frame t s (state_of (body i s))"
  shows "frame t s (state_of (for_each body idxs s))"
proof (induction idxs arbitrary: s)
  case Nil
  show ?case by (simp add: frame_refl)
next
  case (Cons i idxs)
  show ?case by (simp, rule frame_and_then) (rule assms, rule Cons.IH)
qed

lemma frame_write:
  "md s source = Some v \<Longrightarrow> frame dest s (s\<lparr>md := (md s)(dest := md s source)\<rparr>)"
  by (auto simp: frame_def)

lemma frame_write_ext: "frame dest s (s\<lparr>md := (md s)(dest @ x \<mapsto> v)\<rparr>)"
  by (auto simp: frame_def)

lemma copy_element_frame: "frame dest s (state_of (copy_element d source dest s None))"
proof (induction d arbitrary: source dest s)
  case 0
  show ?case by (simp add: frame_refl)
next
  case (Suc d)
  have sub: "frame dest s1 (state_of (copy_element d src (dest @ x) s1 None))" for s1 src x
    by (rule frame_mono [OF _ Suc.IH]) simp
  have same: "frame dest s1 (state_of (copy_element d src dest s1 None))" for s1 src
    by (rule Suc.IH)
  have idx: "frame dest s1 (state_of (copy_element d src (indexed dest i) s1 None))" for s1 src i
    by (rule frame_mono [OF prefix_indexed Suc.IH])
  show ?case
  proof (cases "source \<in> dom (md s)")
    case True
    then obtain v where v: "md s source = Some v" by auto
    show ?thesis
      using True
      apply (simp del: and_then.simps)
      apply (rule frame_and_then, simp, rule frame_write [OF v])
      apply (rule frame_and_then, rule sub)
      apply (rule frame_and_then, rule sub)
      apply (rule frame_and_then, rule sub)
      apply (rule frame_and_then, rule same)
      apply (simp add: frame_refl)
      done
  next
    case False
    show ?thesis
      using False
      by (auto simp: Let_def frame_refl frame_write_ext split: sum.splits
               intro!: frame_trans [OF frame_write_ext frame_for_each] idx)
  qed
qed

subsection \<open>The exceptions of a projection\<close>

lemma own_errors_Return: "own_errors (Return s)"
  by (simp add: own_errors_def)

lemma own_errors_and_then:
  "own_errors r \<Longrightarrow> (\<And>s. own_errors (f s)) \<Longrightarrow> own_errors (and_then r f)"
  by (cases r) (auto simp: own_errors_def)

lemma own_errors_for_each:
  assumes "\<And>i s. own_errors (body i s)"
  shows "own_errors (for_each body idxs s)"
proof (induction idxs arbitrary: s)
  case Nil
  show ?case by (simp add: own_errors_Return)
next
  case (Cons i idxs)
  show ?case by (simp, rule own_errors_and_then) (rule assms, rule Cons.IH)
qed

lemma py_range_error: "py_range v = Inl e \<Longrightarrow> e = TypeError"
  by (cases v) auto

lemma copy_element_own_errors: "own_errors (copy_element d source dest s None)"
proof (induction d arbitrary: source dest s)
  case 0
  show ?case by (simp add: own_errors_def)
next
  case (Suc d)
  show ?case
  proof (cases "source \<in> dom (md s)")
    case True
    then show ?thesis
      apply (simp del: and_then.simps)
      apply (intro own_errors_and_then Suc.IH own_errors_Return)
      done
  next
    case False
    then show ?thesis
      by (auto simp: Let_def own_errors_Return own_errors_def [of "Raise e s" for e s]
               split: sum.splits dest: py_range_error intro!: own_errors_for_each Suc.IH)
  qed
qed

subsection \<open>Absent instances\<close>

lemma show_nat_neq_count [simp]: "show_nat n \<noteq> ''count''" "show_nat n @ x \<noteq> ''count''"
  using show_nat_not_count [of n "[]" "[]"] show_nat_not_count [of n x "[]"] by simp_all

lemma for_each_absent:
  assumes "\<And>i. i \<in> set idxs \<Longrightarrow>
             indexed source i \<notin> dom (md s) \<and> md s (indexed source i @ ''.count'') = None"
  shows "for_each (\<lambda>i s. copy_element (Suc d) (indexed source i) (indexed dest i) s callback)
           idxs s = Return s"
  using assms by (induction idxs) auto

lemma count_only_record:
  assumes "0 < n"
  shows "copy_element (Suc (Suc d)) ''a'' ''b'' \<lparr>md = [''a.count'' \<mapsto> VInt n], calls = []\<rparr> None
         = Return \<lparr>md = [''a.count'' \<mapsto> VInt n, ''b.count'' \<mapsto> VInt n], calls = []\<rparr>"
proof -
  let ?s1 = "\<lparr>md = [''a.count'' \<mapsto> VInt n, ''b.count'' \<mapsto> VInt n], calls = []\<rparr>"
  have "for_each (\<lambda>i s. copy_element (Suc d) (indexed ''a'' i) (indexed ''b'' i) s None)
          [0..<nat n] ?s1 = Return ?s1"
    by (rule for_each_absent) (simp add: indexed_def)
  with assms show ?thesis
    by (simp del: copy_element.simps add: Let_def copy_element.simps(2) [of "Suc d" "''a''"])
qed

subsection \<open>Evaluation of small cases\<close>

lemma show_nat_0: "show_nat 0 = ''0''" and show_nat_1: "show_nat (Suc 0) = ''1''"
  by (simp_all add: show_nat.simps digit_char_def)

lemma range_2: "[0..<2] = [0, Suc 0]"
  by (simp add: upt_conv_Cons numeral_2_eq_2)

lemma scenario_pass:
  "apply_mapping (Suc (Suc d)) mapping \<lparr>md = scenario_record, calls = []\<rparr>
   = Return \<lparr>md = scenario_record(''title'' \<mapsto> VStr ''Sample'', ''creator.count'' \<mapsto> VInt 2),
             calls = []\<rparr>"
  by (simp add: mapping_def scenario_record_def Let_def indexed_def show_nat_0 show_nat_1
        range_2)

lemma scenario_with_instances_pass:
  "apply_mapping (Suc (Suc (Suc (Suc (Suc d))))) mapping
     \<lparr>md = scenario_record_with_instances v0 v1, calls = []\<rparr>
   = Return \<lparr>md = (scenario_record_with_instances v0 v1)
              (''title'' \<mapsto> VStr ''Sample'', ''creator.count'' \<mapsto> VInt 2,
               ''creator.0'' \<mapsto> v0, ''creator.0/name'' \<mapsto> VStr ''Alice'',
               ''creator.1'' \<mapsto> v1, ''creator.1/name'' \<mapsto> VStr ''Bob''),
             calls = [(''dataset/nrd:creator.0'', ''creator.0''),
                      (''dataset/nrd:creator.1'', ''creator.1'')]\<rparr>"
  by (simp add: mapping_def scenario_record_with_instances_def Let_def indexed_def
        show_nat_0 show_nat_1 range_2 invoke_def)

lemma rights_pass_no_rights: "result ''rights'' = None \<Longrightarrow> rights_pass XML result = result"
  by (simp add: rights_pass_def rights_block_def)

lemma scenario_reader:
  "nrd_metadata_reader (Suc (Suc (Suc d))) XML scenario_record
   = Inr (scenario_record(''title'' \<mapsto> VStr ''Sample'', ''creator.count'' \<mapsto> VInt 2))"
  by (simp only: nrd_metadata_reader.simps scenario_pass result.case)
     (simp add: rights_pass_no_rights scenario_record_def)

lemma scenario_with_instances_reader:
  "nrd_metadata_reader (Suc (Suc (Suc (Suc (Suc (Suc d)))))) XML
     (scenario_record_with_instances v0 v1)
   = Inr ((scenario_record_with_instances v0 v1)
              (''title'' \<mapsto> VStr ''Sample'', ''creator.count'' \<mapsto> VInt 2,
               ''creator.0'' \<mapsto> v0, ''creator.0/name'' \<mapsto> VStr ''Alice'',
               ''creator.1'' \<mapsto> v1, ''creator.1/name'' \<mapsto> VStr ''Bob''))"
  by (simp only: nrd_metadata_reader.simps scenario_with_instances_pass result.case)
     (simp add: rights_pass_no_rights scenario_record_with_instances_def)


subsection \<open>Iteration\<close>

lemma and_then_Return: "and_then r f = Return s' \<longleftrightarrow> (\<exists>s1. r = Return s1 \<and> f s1 = Return s')"
  by (cases r) auto

lemma for_each_invariant:
  assumes "P s" and "\<And>i s. i \<in> set idxs \<Longrightarrow> P s \<Longrightarrow> P (state_of (body i s))"
  shows "P (state_of (for_each body idxs s))"
  using assms
proof (induction idxs arbitrary: s)
  case Nil
  then show ?case by simp
next
  case (Cons i idxs)
  have step: "P (state_of (body i s))"
    using Cons.prems by simp
  show ?case
  proof (cases "body i s")
    case (Return s1)
    with step have "P s1" by simp
    then have "P (state_of (for_each body idxs s1))"
      using Cons.prems(2) by (intro Cons.IH) auto
    with Return show ?thesis by simp
  next
    case (Raise e s1)
    with step show ?thesis by simp
  qed
qed

lemma for_each_Return_mem:
  assumes "for_each body idxs s = Return s'" and "i \<in> set idxs"
    and step: "\<And>j s. R s (state_of (body j s))"
    and refl: "\<And>s. R s s"
    and trans: "\<And>a b c. R a b \<Longrightarrow> R b c \<Longrightarrow> R a c"
  shows "\<exists>s1 s2. R s s1 \<and> body i s1 = Return s2 \<and> R s2 s'"
  using assms(1,2)
proof (induction idxs arbitrary: s)
  case Nil
  then show ?case by simp
next
  case (Cons j idxs)
  from Cons.prems(1) obtain s1 where s1: "body j s = Return s1" "for_each body idxs s1 = Return s'"
    by (auto simp: and_then_Return)
  have Rs: "R s s1" using step [of s j] s1 by simp
  show ?case
  proof (cases "i = j")
    case True
    have "R s1 (state_of (for_each body idxs s1))"
      by (rule for_each_invariant [where P = "R s1"]) (auto intro: refl trans step)
    with s1 True refl show ?thesis by auto
  next
    case False
    with Cons.prems have "i \<in> set idxs" by simp
    from Cons.IH [OF s1(2) this] obtain a b where "R s1 a" "body i a = Return b" "R b s'"
      by blast
    with Rs show ?thesis by (blast intro: trans)
  qed
qed

subsection \<open>Repeated elements\<close>

lemma dest_count_not_under_indexed: "\<not> prefix (indexed dest i) (dest @ ''.count'')"
proof
  assume "prefix (indexed dest i) (dest @ ''.count'')"
  then obtain zs where "dest @ ''.count'' = (dest @ ''.'' @ show_nat i) @ zs"
    by (auto simp: indexed_def prefix_def)
  then have "show_nat i @ zs = ''count''" by simp
  then show False by simp
qed

lemma copy_element_keeps:
  "\<not> prefix dest k \<Longrightarrow> md (state_of (copy_element d source dest s None)) k = md s k"
  using copy_element_frame [of dest s d source] by (simp add: frame_def)

lemma copy_element_dom: "dom (md s) \<subseteq> dom (md (state_of (copy_element d source dest s None)))"
  using copy_element_frame [of dest s d source] by (simp add: frame_def)

lemma copy_element_calls: "calls (state_of (copy_element d source dest s None)) = calls s"
  using copy_element_frame [of dest s d source] by (simp add: frame_def)

lemma copy_element_Return_dom:
  "copy_element d source dest s None = Return s' \<Longrightarrow> dom (md s) \<subseteq> dom (md s')"
  using copy_element_dom [of s d source dest] by simp

lemma copy_element_Return_calls:
  "copy_element d source dest s None = Return s' \<Longrightarrow> calls s' = calls s"
  using copy_element_calls [of d source dest s] by simp

lemma scalar_steps:
  assumes "copy_element (Suc d) source dest s callback = Return s'" and "md s source = Some v"
  shows "\<exists>s5. dom (md (s\<lparr>md := (md s)(dest \<mapsto> v)\<rparr>)) \<subseteq> dom (md s5) \<and> calls s5 = calls s \<and>
           (case callback of None \<Rightarrow> Return s5 | Some f \<Rightarrow> invoke f d source dest s5) = Return s'"
proof -
  let ?s1 = "s\<lparr>md := (md s)(dest \<mapsto> v)\<rparr>"
  from assms obtain s2 s3 s4 s5 where
    c2: "copy_element d (source @ ''/language'') (dest @ ''/language'') ?s1 None = Return s2" and
    c3: "copy_element d (source @ ''/@lang'') (dest @ ''/language'') s2 None = Return s3" and
    c4: "copy_element d (source @ ''/@xml:lang'') (dest @ ''/language'') s3 None = Return s4" and
    c5: "copy_element d (source @ ''/@rdf:resource'') dest s4 None = Return s5" and
    cb: "(case callback of None \<Rightarrow> Return s5 | Some f \<Rightarrow> invoke f d source dest s5)
           = Return s'"
    by (auto simp: and_then_Return domI)
  have "dom (md ?s1) \<subseteq> dom (md s5)"
    using copy_element_Return_dom [OF c2] copy_element_Return_dom [OF c3]
      copy_element_Return_dom [OF c4] copy_element_Return_dom [OF c5]
    by (meson order_trans)
  moreover have "calls s5 = calls s"
    using copy_element_Return_calls [OF c2] copy_element_Return_calls [OF c3]
      copy_element_Return_calls [OF c4] copy_element_Return_calls [OF c5]
    by simp
  ultimately show ?thesis using cb by blast
qed

lemma copy_element_scalar_dest:
  assumes "copy_element d source dest s None = Return s'" and "source \<in> dom (md s)"
  shows "dest \<in> dom (md s')"
proof (cases d)
  case 0
  with assms show ?thesis by simp
next
  case (Suc d')
  from assms(2) obtain v where v: "md s source = Some v" by auto
  from scalar_steps [OF assms(1) [unfolded Suc] v] show ?thesis by auto
qed

lemma repeated_count_kept:
  assumes "source \<notin> dom (md s)" and "md s (source @ ''.count'') = Some (VInt n)" and "1 \<le> n"
  shows "md (state_of (copy_element (Suc d) source dest s None)) (dest @ ''.count'') = Some (VInt n)"
proof -
  let ?s1 = "s\<lparr>md := (md s)(dest @ ''.count'' \<mapsto> VInt n)\<rparr>"
  let ?body = "\<lambda>i s. copy_element d (indexed source i) (indexed dest i) s None"
  have "md (state_of (for_each ?body [0..<nat n] ?s1)) (dest @ ''.count'') = Some (VInt n)"
    by (rule for_each_invariant [where P = "\<lambda>s. md s (dest @ ''.count'') = Some (VInt n)"])
       (simp_all add: copy_element_keeps dest_count_not_under_indexed)
  with assms show ?thesis by (simp add: Let_def)
qed

lemma repeated_instances_exist:
  assumes "source \<notin> dom (md s)" and "md s (source @ ''.count'') = Some (VInt n)" and "1 \<le> n"
    and ret: "copy_element (Suc d) source dest s None = Return s'"
    and i: "i < nat n" "indexed source i \<in> dom (md s)"
  shows "indexed dest i \<in> dom (md s')"
proof -
  let ?s1 = "s\<lparr>md := (md s)(dest @ ''.count'' \<mapsto> VInt n)\<rparr>"
  let ?body = "\<lambda>i s. copy_element d (indexed source i) (indexed dest i) s None"
  from assms have loop: "for_each ?body [0..<nat n] ?s1 = Return s'"
    by (simp add: Let_def)
  have "\<exists>a b. dom (md ?s1) \<subseteq> dom (md a) \<and> ?body i a = Return b \<and> dom (md b) \<subseteq> dom (md s')"
  proof (rule for_each_Return_mem [OF loop, where R = "\<lambda>a b. dom (md a) \<subseteq> dom (md b)"])
    show "i \<in> set [0..<nat n]" using i by simp
  next
    fix j s
    show "dom (md s) \<subseteq> dom (md (state_of (?body j s)))" by (rule copy_element_dom)
  qed auto
  then obtain a b where ab: "dom (md ?s1) \<subseteq> dom (md a)"
      "copy_element d (indexed source i) (indexed dest i) a None = Return b"
      "dom (md b) \<subseteq> dom (md s')"
    by blast
  from i ab(1) have "indexed source i \<in> dom (md a)" by auto
  from copy_element_scalar_dest [OF ab(2) this] ab(3) show ?thesis by auto
qed

subsection \<open>The rights pass\<close>

lemma and_then_Raise:
  "and_then r f = Raise e s' \<longleftrightarrow> r = Raise e s' \<or> (\<exists>s1. r = Return s1 \<and> f s1 = Raise e s')"
  by (cases r) auto

lemma set_first_child_text_Raise:
  "set_first_child_text key rights result = Raise e result' \<Longrightarrow> e = IndexError \<and> result' = result"
  by (auto simp: set_first_child_text_def split: list.splits)

lemma rights_block_Raise:
  assumes "rights_block XML result = Raise e result'"
  shows "(e \<noteq> IndexError \<and> result' = result) \<or>
         (e = IndexError \<and>
            (result' = result(''rightsclass'' \<mapsto> VStr ''licensed'') \<or>
             result' = result(''rightsclass'' \<mapsto> VStr ''contractual'')))"
  using assms
  by (auto simp: rights_block_def Let_def and_then_Raise
           split: option.splits val.splits if_splits dest!: set_first_child_text_Raise)

lemma lower_LICENSED: "lower ''LICENSED'' = ''licensed''"
  by (simp add: lower_def lower_char_def)

lemma rights_only_pass:
  "apply_mapping (Suc (Suc d)) mapping \<lparr>md = [''dataset/nrd:rights'' \<mapsto> VStr markup], calls = []\<rparr>
   = Return \<lparr>md = [''dataset/nrd:rights'' \<mapsto> VStr markup, ''rights'' \<mapsto> VStr markup],
             calls = []\<rparr>"
  by (simp add: mapping_def Let_def)

subsection \<open>Callback invocations\<close>

lemma person_attrs_frame: "frame dest s (state_of (person_attrs d source dest s))"
proof (cases d)
  case 0
  then show ?thesis by (simp add: frame_refl)
next
  case (Suc d')
  have sub: "frame dest s1 (state_of (copy_element d' src (dest @ x) s1 None))" for s1 src x
    by (rule frame_mono [OF _ copy_element_frame]) simp
  show ?thesis
    unfolding Suc person_attrs.simps
    by (intro frame_and_then sub)
qed

lemma well_behaved_person_attrs: "well_behaved person_attrs"
  using person_attrs_frame by (simp add: well_behaved_def frame_def)




subsection \<open>Callbacks that delete no key\<close>

lemma no_delete_and_then:
  assumes "dom (md s) \<subseteq> dom (md (state_of r))"
    and "\<And>s1. dom (md s1) \<subseteq> dom (md (state_of (f s1)))"
  shows "dom (md s) \<subseteq> dom (md (state_of (and_then r f)))"
proof (cases r)
  case (Return s1)
  with assms(1) assms(2) [of s1] show ?thesis by auto
next
  case (Raise e s1)
  with assms(1) show ?thesis by simp
qed

lemma no_delete_for_each:
  fixes s :: state
  assumes "\<And>i (s :: state). dom (md s) \<subseteq> dom (md (state_of (body i s)))"
  shows "dom (md s) \<subseteq> dom (md (state_of (for_each body idxs s)))"
proof (rule for_each_invariant [where P = "\<lambda>s'. dom (md s) \<subseteq> dom (md s')"])
  show "dom (md s) \<subseteq> dom (md s)" by simp
next
  fix i and s1 :: state
  assume "dom (md s) \<subseteq> dom (md s1)"
  with assms [of s1 i] show "dom (md s) \<subseteq> dom (md (state_of (body i s1)))" by auto
qed

lemma state_of_with_calls: "state_of (with_calls L r) = (state_of r)\<lparr>calls := L\<rparr>"
  by (cases r) simp_all

lemma invoke_no_delete:
  assumes "well_behaved f"
  shows "dom (md s) \<subseteq> dom (md (state_of (invoke f d source dest s)))"
  using assms [unfolded well_behaved_def, rule_format, of "s\<lparr>calls := []\<rparr>" d source dest]
  by (simp add: invoke_def state_of_with_calls)

lemma copy_element_no_delete:
  assumes "\<forall>f. callback = Some f \<longrightarrow> well_behaved f"
  shows "dom (md s) \<subseteq> dom (md (state_of (copy_element d source dest s callback)))"
proof (induction d arbitrary: source dest s)
  case 0
  show ?case by simp
next
  case (Suc d)
  have cb: "dom (md s1) \<subseteq> dom (md (state_of
              (case callback of None \<Rightarrow> Return s1 | Some f \<Rightarrow> invoke f d source dest s1)))" for s1
    using assms by (cases callback) (simp_all add: invoke_no_delete)
  show ?case
  proof (cases "source \<in> dom (md s)")
    case True
    then show ?thesis
      apply (simp del: and_then.simps)
      apply (rule no_delete_and_then, force)
      apply (rule no_delete_and_then, rule copy_element_dom)
      apply (rule no_delete_and_then, rule copy_element_dom)
      apply (rule no_delete_and_then, rule copy_element_dom)
      apply (rule no_delete_and_then, rule copy_element_dom)
      apply (rule cb)
      done
  next
    case False
    have loop: "dom (md s1) \<subseteq> dom (md (state_of
                  (for_each (\<lambda>i s. copy_element d (indexed source i) (indexed dest i) s callback)
                     idxs s1)))" for idxs s1
      by (rule no_delete_for_each) (rule Suc.IH)
    define count where "count = (case md s (source @ ''.count'') of None \<Rightarrow> VInt 0 | Some c \<Rightarrow> c)"
    let ?s1 = "s\<lparr>md := (md s)(dest @ ''.count'' \<mapsto> count)\<rparr>"
    have wr: "dom (md s) \<subseteq> dom (md ?s1)"
      by auto
    have unfold: "copy_element (Suc d) source dest s callback
          = (if \<not> truthy count then Return s
             else case py_range count of
                    Inl e \<Rightarrow> Raise e ?s1
                  | Inr idxs \<Rightarrow>
                      for_each (\<lambda>i s. copy_element d (indexed source i) (indexed dest i) s callback)
                        idxs ?s1)"
      using False unfolding count_def
      by (simp add: Let_def del: copy_element.simps add: copy_element.simps(2) [of d])
    show ?thesis
    proof (cases "truthy count")
      case False
      then show ?thesis by (simp add: unfold del: copy_element.simps)
    next
      case True
      show ?thesis
      proof (cases "py_range count")
        case (Inl e)
        with True show ?thesis by (auto simp add: unfold simp del: copy_element.simps)
      next
        case (Inr idxs)
        with True order_trans [OF wr loop [of ?s1 idxs]] show ?thesis
          by (simp add: unfold del: copy_element.simps)
      qed
    qed
  qed
qed

lemma well_behaved_document_attrs: "well_behaved document_attrs"
  unfolding well_behaved_def
proof (intro allI)
  fix d source dest s
  show "dom (md s) \<subseteq> dom (md (state_of (document_attrs d source dest s)))"
  proof (cases d)
    case 0
    then show ?thesis by simp
  next
    case (Suc d')
    show ?thesis
      unfolding Suc document_attrs.simps
      by (intro no_delete_and_then copy_element_no_delete)
         (simp_all add: well_behaved_person_attrs)
  qed
qed

lemma well_behaved_funding_attrs: "well_behaved funding_attrs"
  unfolding well_behaved_def
proof (intro allI)
  fix d source dest s
  show "dom (md s) \<subseteq> dom (md (state_of (funding_attrs d source dest s)))"
  proof (cases d)
    case 0
    then show ?thesis by simp
  next
    case (Suc d')
    show ?thesis
      unfolding Suc funding_attrs.simps
      by (intro no_delete_and_then copy_element_no_delete)
         (simp_all add: well_behaved_person_attrs)
  qed
qed

lemma well_behaved_file_attrs: "well_behaved file_attrs"
  unfolding well_behaved_def
proof (intro allI)
  fix d source dest s
  show "dom (md s) \<subseteq> dom (md (state_of (file_attrs d source dest s)))"
  proof (cases d)
    case 0
    then show ?thesis by simp
  next
    case (Suc d')
    show ?thesis
      unfolding Suc file_attrs.simps
      by (intro no_delete_and_then copy_element_no_delete) simp_all
  qed
qed

subsection \<open>Scalar elements\<close>

lemma absent_copy:
  "md s src = None \<Longrightarrow> md s (src @ ''.count'') = None \<Longrightarrow>
   copy_element (Suc d) src dst s callback = Return s"
  by (simp add: domIff)

lemma leaf_copy:
  assumes v: "md s src = Some v"
    and below: "\<forall>x. x \<noteq> [] \<longrightarrow> md s (src @ x) = None"
    and dst: "\<not> strict_prefix src dst"
  shows "copy_element (Suc (Suc d)) src dst s None = Return (s\<lparr>md := (md s)(dst \<mapsto> v)\<rparr>)"
proof -
  let ?s1 = "s\<lparr>md := (md s)(dst \<mapsto> v)\<rparr>"
  have none: "md ?s1 (src @ x) = None" if "x \<noteq> []" for x
  proof -
    from dst that have "src @ x \<noteq> dst" by (auto simp: strict_prefix_def)
    with below that show ?thesis by simp
  qed
  have sub: "copy_element (Suc d) (src @ w) t ?s1 None = Return ?s1" if "w \<noteq> []" for w t
    using none [of w] none [of "w @ ''.count''"] that by (intro absent_copy) simp_all
  have "copy_element (Suc (Suc d)) src dst s None
        = and_then (Return ?s1) (\<lambda>s.
          and_then (copy_element (Suc d) (src @ ''/language'') (dst @ ''/language'') s None) (\<lambda>s.
          and_then (copy_element (Suc d) (src @ ''/@lang'') (dst @ ''/language'') s None) (\<lambda>s.
          and_then (copy_element (Suc d) (src @ ''/@xml:lang'') (dst @ ''/language'') s None) (\<lambda>s.
          and_then (copy_element (Suc d) (src @ ''/@rdf:resource'') dst s None) Return))))"
    using v by (subst copy_element.simps) (simp add: domI del: copy_element.simps)
  also have "\<dots> = Return ?s1"
    by (simp add: sub del: copy_element.simps)
  finally show ?thesis .
qed

lemma variant_copy:
  assumes leaf: "\<forall>x. x \<noteq> [] \<longrightarrow> md s (k @ x) = None"
    and t: "\<not> strict_prefix k t"
  shows "copy_element (Suc (Suc d)) k t s None
         = Return (case md s k of None \<Rightarrow> s | Some l \<Rightarrow> s\<lparr>md := (md s)(t \<mapsto> l)\<rparr>)"
proof (cases "md s k")
  case None
  from leaf have "md s (k @ ''.count'') = None" by simp
  with None show ?thesis by (simp add: absent_copy del: copy_element.simps)
next
  case (Some l)
  with leaf t show ?thesis by (simp add: leaf_copy del: copy_element.simps)
qed

lemma not_prefix_append:
  "\<not> prefix source dest \<Longrightarrow> \<not> prefix dest source \<Longrightarrow> \<not> prefix source (dest @ y)"
  using prefix_append [of source dest y] by auto

lemma language_below_variant:
  assumes "clear_of_variants source dest" and "w \<in> variants"
    and "prefix (source @ w) (dest @ ''/language'')"
  shows "dest = source \<and> w = ''/language''"
proof -
  from assms(1,2) have clear: "\<not> prefix (source @ w) dest"
    by (simp add: clear_of_variants_def)
  from assms(3) clear obtain us where us: "source @ w = dest @ us" "prefix us ''/language''"
    by (auto simp: prefix_append)
  from us(2) have "us \<in> set (prefixes ''/language'')"
    by (simp only: in_set_prefixes)
  then have cases: "us \<in> {[], ''/'', ''/l'', ''/la'', ''/lan'', ''/lang'', ''/langu'', ''/langua'',
                         ''/languag'', ''/language''}"
    by simp
  have "us \<noteq> []"
  proof
    assume "us = []"
    with us(1) have "dest = source @ w" by simp
    with clear show False by simp
  qed
  moreover from us(1) have "rev (source @ w) = rev (dest @ us)" by simp
  then have "rev w @ rev source = rev us @ rev dest" by simp
  ultimately have "rev source = rev dest \<and> w = ''/language''"
    using cases assms(2) by (auto simp: variants_def)
  then show ?thesis by simp
qed

lemma scalar_leaf:
  assumes v: "md s source = Some v"
    and leaf: "leaf_variants (md s) source"
    and clear: "clear_of_variants source dest"
  shows "copy_element (Suc (Suc (Suc d))) source dest s None
         = Return (s\<lparr>md := (md s)
             (dest \<mapsto> (case md s (source @ ''/@rdf:resource'') of None \<Rightarrow> v | Some r \<Rightarrow> r),
              dest @ ''/language'' :=
                (case md s (source @ ''/@xml:lang'') of
                   Some l \<Rightarrow> Some l
                 | None \<Rightarrow>
                     (case md s (source @ ''/@lang'') of
                        Some l \<Rightarrow> Some l
                      | None \<Rightarrow>
                          (case md s (source @ ''/language'') of
                             Some l \<Rightarrow> Some l
                           | None \<Rightarrow> md s (dest @ ''/language'')))))\<rparr>)"
    (is "_ = Return (s\<lparr>md := ?m\<rparr>)")
proof -
  let ?L = "dest @ ''/language''"
  define s1 where "s1 = s\<lparr>md := (md s)(dest \<mapsto> v)\<rparr>"
  define s2 where "s2 = (case md s (source @ ''/language'') of
                           None \<Rightarrow> s1 | Some l \<Rightarrow> s1\<lparr>md := (md s1)(?L \<mapsto> l)\<rparr>)"
  define s3 where "s3 = (case md s (source @ ''/@lang'') of
                           None \<Rightarrow> s2 | Some l \<Rightarrow> s2\<lparr>md := (md s2)(?L \<mapsto> l)\<rparr>)"
  define s4 where "s4 = (case md s (source @ ''/@xml:lang'') of
                           None \<Rightarrow> s3 | Some l \<Rightarrow> s3\<lparr>md := (md s3)(?L \<mapsto> l)\<rparr>)"
  define s5 where "s5 = (case md s (source @ ''/@rdf:resource'') of
                           None \<Rightarrow> s4 | Some l \<Rightarrow> s4\<lparr>md := (md s4)(dest \<mapsto> l)\<rparr>)"
  define later where "later = {''/@lang'', ''/@xml:lang'', ''/@rdf:resource''}"
  have later: "w \<in> variants" "w \<noteq> ''/language''" if "w \<in> later" for w
    using that by (auto simp: later_def variants_def)
  have ne: "(source @ w) @ x \<noteq> dest" if "w \<in> variants" for w x
    using clear that by (metis clear_of_variants_def prefixI)
  have neL: "(source @ w) @ x \<noteq> ?L" if "w \<in> later" for w x
    using language_below_variant [OF clear later(1) [OF that], of ] later(2) [OF that]
    by (metis prefixI)
  have spL: "\<not> strict_prefix (source @ w) ?L" if "w \<in> variants" for w
    using language_below_variant [OF clear that] by (auto simp: strict_prefix_def)
  have sp: "\<not> strict_prefix (source @ w) dest" if "w \<in> variants" for w
    using clear that by (simp add: clear_of_variants_def strict_prefix_def)
  have k1: "md s1 ((source @ w) @ x) = md s ((source @ w) @ x)" if "w \<in> variants" for w x
    by (simp add: s1_def ne [OF that] del: append_assoc)
  have k2: "md s2 ((source @ w) @ x) = md s ((source @ w) @ x)" if "w \<in> later" for w x
    using k1 [OF later(1) [OF that], of x] neL [OF that, of x]
    by (simp add: s2_def split: option.split del: append_assoc)
  have k3: "md s3 ((source @ w) @ x) = md s ((source @ w) @ x)" if "w \<in> later" for w x
    using k2 [OF that, of x] neL [OF that, of x]
    by (simp add: s3_def split: option.split del: append_assoc)
  have k4: "md s4 ((source @ w) @ x) = md s ((source @ w) @ x)" if "w \<in> later" for w x
    using k3 [OF that, of x] neL [OF that, of x]
    by (simp add: s4_def split: option.split del: append_assoc)
  have below: "md s ((source @ w) @ x) = None" if "w \<in> variants" and "x \<noteq> []" for w x
    using leaf that by (simp add: leaf_variants_def)
  have in_variants: "''/language'' \<in> variants" "''/@lang'' \<in> variants"
      "''/@xml:lang'' \<in> variants" "''/@rdf:resource'' \<in> variants"
    by (simp_all add: variants_def)
  have in_later: "''/@lang'' \<in> later" "''/@xml:lang'' \<in> later" "''/@rdf:resource'' \<in> later"
    by (simp_all add: later_def)
  have c1: "copy_element (Suc (Suc d)) (source @ ''/language'') ?L s1 None = Return s2"
    using k1 [of "''/language''" "[]"]
    by (subst variant_copy [OF _ spL])
       (simp_all add: in_variants k1 below s2_def del: append_assoc)
  have c2: "copy_element (Suc (Suc d)) (source @ ''/@lang'') ?L s2 None = Return s3"
    using k2 [of "''/@lang''" "[]"]
    by (subst variant_copy [OF _ spL])
       (simp_all add: in_variants in_later k2 below s3_def del: append_assoc)
  have c3: "copy_element (Suc (Suc d)) (source @ ''/@xml:lang'') ?L s3 None = Return s4"
    using k3 [of "''/@xml:lang''" "[]"]
    by (subst variant_copy [OF _ spL])
       (simp_all add: in_variants in_later k3 below s4_def del: append_assoc)
  have c4: "copy_element (Suc (Suc d)) (source @ ''/@rdf:resource'') dest s4 None = Return s5"
    using k4 [of "''/@rdf:resource''" "[]"]
    by (subst variant_copy [OF _ sp])
       (simp_all add: in_variants in_later k4 below s5_def del: append_assoc)
  have "copy_element (Suc (Suc (Suc d))) source dest s None = Return s5"
    using v by (subst copy_element.simps) (simp add: domI s1_def [symmetric] c1 c2 c3 c4
                                             del: copy_element.simps)
  moreover have "calls s5 = calls s"
    by (simp add: s5_def s4_def s3_def s2_def s1_def split: option.split)
  moreover have "md s5 = ?m"
    by (rule ext) (simp add: s5_def s4_def s3_def s2_def s1_def split: option.split)
  ultimately show ?thesis by simp
qed


subsection \<open>Locality\<close>

lemma effect_id: "effect Map.empty [] s = s"
  by (simp add: effect_def)

lemma effect_effect: "effect W2 L2 (effect W1 L1 s) = effect (W1 ++ W2) (L1 @ L2) s"
  by (simp add: effect_def)

lemma agree_on_refl: "agree_on R s s"
  by (simp add: agree_on_def)

lemma agree_on_effect:
  assumes "dom W \<inter> R = {}" and "agree_on R s s'"
  shows "agree_on R s (effect W L s')"
proof -
  have "(md s' ++ W) k = md s' k" if "k \<in> R" for k
    using assms(1) that by (auto simp: map_add_def split: option.splits)
  with assms(2) show ?thesis by (simp add: agree_on_def effect_def)
qed

lemma local_onI:
  assumes "dom W \<inter> R = {}" and "\<And>s'. agree_on R s s' \<Longrightarrow> g s' = finish c (effect W L s')"
  shows "local_on R s g"
  unfolding local_on_def using assms by blast

lemma local_on_cong:
  assumes "\<And>s'. agree_on R s s' \<Longrightarrow> g s' = h s'" and "local_on R s h"
  shows "local_on R s g"
  using assms unfolding local_on_def by (metis (no_types, lifting))

lemma local_on_effect: "dom W \<inter> R = {} \<Longrightarrow> local_on R s (\<lambda>s'. Return (effect W L s'))"
  by (rule local_onI [where c = None]) simp_all

lemma local_on_Return: "local_on R s Return"
  by (rule local_onI [where c = None and W = Map.empty and L = "[]"]) (simp_all add: effect_id)

lemma local_on_Raise: "local_on R s (Raise e)"
  by (rule local_onI [where c = "Some e" and W = Map.empty and L = "[]"]) (simp_all add: effect_id)

lemma local_on_and_then:
  assumes g: "local_on R s g" and h: "local_on R s h"
  shows "local_on R s (\<lambda>s'. and_then (g s') h)"
proof -
  from g obtain c1 W1 L1 where
    1: "dom W1 \<inter> R = {}" "\<And>s'. agree_on R s s' \<Longrightarrow> g s' = finish c1 (effect W1 L1 s')"
    unfolding local_on_def by blast
  from h obtain c2 W2 L2 where
    2: "dom W2 \<inter> R = {}" "\<And>s'. agree_on R s s' \<Longrightarrow> h s' = finish c2 (effect W2 L2 s')"
    unfolding local_on_def by blast
  show ?thesis
  proof (cases c1)
    case None
    show ?thesis
    proof (rule local_onI [where c = c2 and W = "W1 ++ W2" and L = "L1 @ L2"])
      show "dom (W1 ++ W2) \<inter> R = {}" using 1(1) 2(1) by auto
    next
      fix s' assume a: "agree_on R s s'"
      then have "agree_on R s (effect W1 L1 s')" by (rule agree_on_effect [OF 1(1)])
      then have "h (effect W1 L1 s') = finish c2 (effect W2 L2 (effect W1 L1 s'))" by (rule 2(2))
      with 1(2) [OF a] None
      show "and_then (g s') h = finish c2 (effect (W1 ++ W2) (L1 @ L2) s')"
        by (simp add: effect_effect)
    qed
  next
    case (Some e)
    show ?thesis
    proof (rule local_onI [where c = "Some e" and W = W1 and L = L1])
      show "dom W1 \<inter> R = {}" by (rule 1(1))
    next
      fix s' assume "agree_on R s s'"
      from 1(2) [OF this] Some show "and_then (g s') h = finish (Some e) (effect W1 L1 s')"
        by simp
    qed
  qed
qed

lemma local_on_for_each:
  assumes "\<And>i. i \<in> set idxs \<Longrightarrow> local_on R s (body i)"
  shows "local_on R s (for_each body idxs)"
  using assms
proof (induction idxs)
  case Nil
  have "for_each body [] = Return" by (rule ext) simp
  then show ?case by (simp add: local_on_Return)
next
  case (Cons i idxs)
  have "for_each body (i # idxs) = (\<lambda>s'. and_then (body i s') (for_each body idxs))"
    by (rule ext) simp
  moreover have "local_on R s (\<lambda>s'. and_then (body i s') (for_each body idxs))"
    by (rule local_on_and_then) (simp_all add: Cons)
  ultimately show ?case by simp
qed

lemma local_on_write:
  assumes "source \<in> R" and "dest \<notin> R" and "md s source = Some v"
  shows "local_on R s (\<lambda>s'. Return (s'\<lparr>md := (md s')(dest := md s' source)\<rparr>))"
proof (rule local_on_cong)
  show "local_on R s (\<lambda>s'. Return (effect [dest \<mapsto> v] [] s'))"
    using assms(2) by (intro local_on_effect) simp
next
  fix s' assume "agree_on R s s'"
  with assms have "md s' source = Some v" by (simp add: agree_on_def)
  then show "Return (s'\<lparr>md := (md s')(dest := md s' source)\<rparr>) = Return (effect [dest \<mapsto> v] [] s')"
    by (simp add: effect_def)
qed

lemma local_on_store:
  assumes "dest \<notin> R"
  shows "local_on R s (\<lambda>s'. Return (s'\<lparr>md := (md s')(dest \<mapsto> v)\<rparr>))"
proof (rule local_on_cong)
  show "local_on R s (\<lambda>s'. Return (effect [dest \<mapsto> v] [] s'))"
    using assms by (intro local_on_effect) simp
next
  fix s'
  show "Return (s'\<lparr>md := (md s')(dest \<mapsto> v)\<rparr>) = Return (effect [dest \<mapsto> v] [] s')"
    by (simp add: effect_def)
qed

lemma local_on_invoke:
  assumes "local_on R s (f d source dest)"
  shows "local_on R s (invoke f d source dest)"
proof -
  from assms obtain c W L where
    W: "dom W \<inter> R = {}" and
    run: "\<And>s'. agree_on R s s' \<Longrightarrow> f d source dest s' = finish c (effect W L s')"
    unfolding local_on_def by blast
  have "invoke f d source dest s' = finish c (effect W [(source, dest)] s')"
    if "agree_on R s s'" for s'
  proof -
    from that have "agree_on R s (s'\<lparr>calls := []\<rparr>)" by (simp add: agree_on_def)
    from run [OF this] show ?thesis
      by (cases c) (simp_all add: invoke_def effect_def)
  qed
  with W show ?thesis unfolding local_on_def by blast
qed

lemma outside_append: "outside R dest \<Longrightarrow> outside R (dest @ x)"
  by (simp add: outside_def)

lemma outside_indexed: "outside R dest \<Longrightarrow> outside R (indexed dest i)"
  by (simp add: outside_def indexed_def)

lemma outside_not_in:
  assumes "outside R dest"
  shows "dest \<notin> R" and "dest @ x \<notin> R"
proof -
  from assms have *: "dest @ y \<notin> R" for y by (simp add: outside_def)
  from * [of "[]"] show "dest \<notin> R" by simp
  from * [of x] show "dest @ x \<notin> R" .
qed

lemma closed_below_append: "closed_below R \<Longrightarrow> k \<in> R \<Longrightarrow> k @ x \<in> R"
  by (simp add: closed_below_def)

lemma closed_below_indexed: "closed_below R \<Longrightarrow> k \<in> R \<Longrightarrow> indexed k i \<in> R"
  by (simp add: closed_below_def indexed_def)

lemma copy_element_local:
  assumes R: "closed_below R"
  shows "local_callback R callback \<Longrightarrow> source \<in> R \<Longrightarrow> outside R dest \<Longrightarrow>
         local_on R s (\<lambda>s'. copy_element d source dest s' callback)"
proof (induction d arbitrary: source dest s callback)
  case 0
  have "(\<lambda>s'. copy_element 0 source dest s' callback) = Raise RecursionError"
    by (rule ext) simp
  then show ?case by (simp add: local_on_Raise)
next
  case (Suc d)
  have none: "local_callback R None" by (simp add: local_callback_def)
  have sub: "local_on R s1 (\<lambda>s'. copy_element d (source @ x) (dest @ y) s' None)" for s1 x y
    by (rule Suc.IH [OF none closed_below_append [OF R Suc.prems(2)]
          outside_append [OF Suc.prems(3)]])
  have same: "local_on R s1 (\<lambda>s'. copy_element d (source @ x) dest s' None)" for s1 x
    by (rule Suc.IH [OF none closed_below_append [OF R Suc.prems(2)] Suc.prems(3)])
  have inst: "local_on R s1 (\<lambda>s'. copy_element d (indexed source i) (indexed dest i) s' callback)"
    for s1 i
    by (rule Suc.IH [OF Suc.prems(1) closed_below_indexed [OF R Suc.prems(2)]
          outside_indexed [OF Suc.prems(3)]])
  have cb: "local_on R s
              (\<lambda>s'. case callback of None \<Rightarrow> Return s' | Some f \<Rightarrow> invoke f d source dest s')"
  proof (cases callback)
    case None
    then show ?thesis by (simp add: local_on_Return)
  next
    case (Some f)
    with Suc.prems have "local_on R s (f d source dest)"
      by (simp add: local_callback_def)
    with Some show ?thesis by (simp add: local_on_invoke)
  qed
  have key: "md s' source = md s source" "md s' (source @ ''.count'') = md s (source @ ''.count'')"
    if "agree_on R s s'" for s'
    using that Suc.prems(2) closed_below_append [OF R Suc.prems(2), of "''.count''"]
    by (simp_all add: agree_on_def)
  show ?case
  proof (cases "md s source")
    case (Some v)
    show ?thesis
    proof (rule local_on_cong)
      fix s' assume "agree_on R s s'"
      from key(1) [OF this] Some
      show "copy_element (Suc d) source dest s' callback
            = and_then (Return (s'\<lparr>md := (md s')(dest := md s' source)\<rparr>)) (\<lambda>s.
              and_then (copy_element d (source @ ''/language'') (dest @ ''/language'') s None) (\<lambda>s.
              and_then (copy_element d (source @ ''/@lang'') (dest @ ''/language'') s None) (\<lambda>s.
              and_then (copy_element d (source @ ''/@xml:lang'') (dest @ ''/language'') s None) (\<lambda>s.
              and_then (copy_element d (source @ ''/@rdf:resource'') dest s None) (\<lambda>s.
              (case callback of None \<Rightarrow> Return s | Some f \<Rightarrow> invoke f d source dest s))))))"
        by (simp add: domI)
    next
      show "local_on R s (\<lambda>s'.
              and_then (Return (s'\<lparr>md := (md s')(dest := md s' source)\<rparr>)) (\<lambda>s.
              and_then (copy_element d (source @ ''/language'') (dest @ ''/language'') s None) (\<lambda>s.
              and_then (copy_element d (source @ ''/@lang'') (dest @ ''/language'') s None) (\<lambda>s.
              and_then (copy_element d (source @ ''/@xml:lang'') (dest @ ''/language'') s None) (\<lambda>s.
              and_then (copy_element d (source @ ''/@rdf:resource'') dest s None) (\<lambda>s.
              (case callback of None \<Rightarrow> Return s | Some f \<Rightarrow> invoke f d source dest s)))))))"
        by (intro local_on_and_then sub same cb
              local_on_write [OF Suc.prems(2) outside_not_in(1) [OF Suc.prems(3)] Some])
    qed
  next
    case None
    define count where "count = (case md s (source @ ''.count'') of None \<Rightarrow> VInt 0 | Some c \<Rightarrow> c)"
    show ?thesis
    proof (cases "truthy count")
      case False
      show ?thesis
      proof (rule local_on_cong)
        fix s' assume "agree_on R s s'"
        from key [OF this] None False
        show "copy_element (Suc d) source dest s' callback = Return s'"
          by (simp add: domIff count_def)
      qed (rule local_on_Return)
    next
      case True
      show ?thesis
      proof (cases "py_range count")
        case (Inl e)
        show ?thesis
        proof (rule local_on_cong)
          fix s' assume "agree_on R s s'"
          from key [OF this] None True Inl
          show "copy_element (Suc d) source dest s' callback
                = and_then (Return (s'\<lparr>md := (md s')(dest @ ''.count'' \<mapsto> count)\<rparr>)) (Raise e)"
            by (simp add: domIff count_def Let_def)
        next
          show "local_on R s (\<lambda>s'.
                  and_then (Return (s'\<lparr>md := (md s')(dest @ ''.count'' \<mapsto> count)\<rparr>)) (Raise e))"
            by (intro local_on_and_then local_on_Raise
                  local_on_store [OF outside_not_in(2) [OF Suc.prems(3)]])
        qed
      next
        case (Inr idxs)
        show ?thesis
        proof (rule local_on_cong)
          fix s' assume "agree_on R s s'"
          from key [OF this] None True Inr
          show "copy_element (Suc d) source dest s' callback
                = and_then (Return (s'\<lparr>md := (md s')(dest @ ''.count'' \<mapsto> count)\<rparr>))
                    (for_each (\<lambda>i s. copy_element d (indexed source i) (indexed dest i) s callback)
                       idxs)"
            by (simp add: domIff count_def Let_def)
        next
          show "local_on R s (\<lambda>s'.
                  and_then (Return (s'\<lparr>md := (md s')(dest @ ''.count'' \<mapsto> count)\<rparr>))
                    (for_each (\<lambda>i s. copy_element d (indexed source i) (indexed dest i) s callback)
                       idxs))"
            by (intro local_on_and_then local_on_for_each inst
                  local_on_store [OF outside_not_in(2) [OF Suc.prems(3)]])
        qed
      qed
    qed
  qed
qed


subsection \<open>Locality of the callbacks and of the rule table\<close>

lemma local_callback_None: "local_callback R None"
  by (simp add: local_callback_def)

lemma local_callback_SomeI:
  assumes "\<And>d source dest s. source \<in> R \<Longrightarrow> outside R dest \<Longrightarrow> local_on R s (f d source dest)"
  shows "local_callback R (Some f)"
  using assms by (simp add: local_callback_def)

lemma person_attrs_local:
  assumes R: "closed_below R"
  shows "local_callback R (Some person_attrs)"
proof (rule local_callback_SomeI)
  fix d source dest s
  assume sd: "source \<in> R" "outside R dest"
  have sub: "local_on R s (\<lambda>s'. copy_element d' (source @ x) (dest @ y) s' None)" for d' x y
    by (rule copy_element_local [OF R local_callback_None closed_below_append [OF R sd(1)]
          outside_append [OF sd(2)]])
  show "local_on R s (person_attrs d source dest)"
  proof (cases d)
    case 0
    have "person_attrs 0 source dest = Raise RecursionError" by (rule ext) simp
    with 0 show ?thesis by (simp add: local_on_Raise)
  next
    case (Suc d')
    have "person_attrs (Suc d') source dest
          = (\<lambda>result.
             and_then (copy_element d' (source @ ''/foaf:name'') (dest @ ''/name'') result None)
               (\<lambda>result.
             and_then (copy_element d' (source @ ''/foaf:mbox'') (dest @ ''/email'') result None)
               (\<lambda>result.
             copy_element d' (source @ ''/foaf:phone'') (dest @ ''/phone'') result None)))"
      by (rule ext) simp
    moreover have "local_on R s \<dots>"
      by (intro local_on_and_then sub)
    ultimately show ?thesis using Suc by simp
  qed
qed

lemma document_attrs_local:
  assumes R: "closed_below R"
  shows "local_callback R (Some document_attrs)"
proof (rule local_callback_SomeI)
  fix d source dest s
  assume sd: "source \<in> R" "outside R dest"
  have sub: "local_on R s (\<lambda>s'. copy_element d' (source @ x) (dest @ y) s' None)" for d' x y
    by (rule copy_element_local [OF R local_callback_None closed_below_append [OF R sd(1)]
          outside_append [OF sd(2)]])
  have same: "local_on R s (\<lambda>s'. copy_element d' (source @ x) dest s' None)" for d' x
    by (rule copy_element_local [OF R local_callback_None closed_below_append [OF R sd(1)] sd(2)])
  have person: "local_on R s (\<lambda>s'. copy_element d' (source @ x) (dest @ y) s' (Some person_attrs))"
    for d' x y
    by (rule copy_element_local [OF R person_attrs_local [OF R]
          closed_below_append [OF R sd(1)] outside_append [OF sd(2)]])
  show "local_on R s (document_attrs d source dest)"
  proof (cases d)
    case 0
    have "document_attrs 0 source dest = Raise RecursionError" by (rule ext) simp
    with 0 show ?thesis by (simp add: local_on_Raise)
  next
    case (Suc d')
    have "document_attrs (Suc d') source dest
          = (\<lambda>result.
     and_then (copy_element d' (source @ ''/dct:title'') (dest @ ''/title'') result None) (\<lambda>result.
     and_then (copy_element d' (source @ ''/dct:identifier'') dest result None) (\<lambda>result.
     and_then (copy_element d' (source @ ''/dct:creator'') (dest @ ''/creator.0/name'') result None)
       (\<lambda>result.
     and_then (copy_element d' (source @ ''/nrd:creator'') (dest @ ''/creator'') result
                 (Some person_attrs)) (\<lambda>result.
     copy_element d' (source @ ''/dct:description'') (dest @ ''/description'') result None)))))"
      by (rule ext) simp
    moreover have "local_on R s \<dots>"
      by (intro local_on_and_then sub same person)
    ultimately show ?thesis using Suc by simp
  qed
qed

lemma funding_attrs_local:
  assumes R: "closed_below R"
  shows "local_callback R (Some funding_attrs)"
proof (rule local_callback_SomeI)
  fix d source dest s
  assume sd: "source \<in> R" "outside R dest"
  have sub: "local_on R s (\<lambda>s'. copy_element d' (source @ x) (dest @ y) s' None)" for d' x y
    by (rule copy_element_local [OF R local_callback_None closed_below_append [OF R sd(1)]
          outside_append [OF sd(2)]])
  have person: "local_on R s (\<lambda>s'. copy_element d' (source @ x) (dest @ y) s' (Some person_attrs))"
    for d' x y
    by (rule copy_element_local [OF R person_attrs_local [OF R]
          closed_below_append [OF R sd(1)] outside_append [OF sd(2)]])
  show "local_on R s (funding_attrs d source dest)"
  proof (cases d)
    case 0
    have "funding_attrs 0 source dest = Raise RecursionError" by (rule ext) simp
    with 0 show ?thesis by (simp add: local_on_Raise)
  next
    case (Suc d')
    have "funding_attrs (Suc d') source dest
          = (\<lambda>result.
     and_then (copy_element d' (source @ ''/rev:arpfo:funds.0/arpfo:grantNumber'')
                 (dest @ ''/fundingNumber'') result None) (\<lambda>result.
     copy_element d' (source @ ''/rev:arpfo:funds.0/rev:arpfo:provides'') (dest @ ''/funder'')
       result (Some person_attrs)))"
      by (rule ext) simp
    moreover have "local_on R s \<dots>"
      by (intro local_on_and_then sub person)
    ultimately show ?thesis using Suc by simp
  qed
qed

lemma file_attrs_local:
  assumes R: "closed_below R"
  shows "local_callback R (Some file_attrs)"
proof (rule local_callback_SomeI)
  fix d source dest s
  assume sd: "source \<in> R" "outside R dest"
  have sub: "local_on R s (\<lambda>s'. copy_element d' (source @ x) (dest @ y) s' None)" for d' x y
    by (rule copy_element_local [OF R local_callback_None closed_below_append [OF R sd(1)]
          outside_append [OF sd(2)]])
  show "local_on R s (file_attrs d source dest)"
  proof (cases d)
    case 0
    have "file_attrs 0 source dest = Raise RecursionError" by (rule ext) simp
    with 0 show ?thesis by (simp add: local_on_Raise)
  next
    case (Suc d')
    have "file_attrs (Suc d') source dest
          = (\<lambda>result.
     and_then (copy_element d' (source @ ''/dcat:mediaType'') (dest @ ''/mimetype'') result None)
       (\<lambda>result.
     and_then (copy_element d' (source @ ''/fp:checksum.0/fp:checksumValue.0'')
                 (dest @ ''/checksum.0'') result None) (\<lambda>result.
     and_then (copy_element d' (source @ ''/fp:checksum.0/fp:generator.0'')
                 (dest @ ''/checksum.0/algorithm'') result None) (\<lambda>result.
     copy_element d' (source @ ''/dcat:byteSize'') (dest @ ''/size'') result None))))"
      by (rule ext) simp
    moreover have "local_on R s \<dots>"
      by (intro local_on_and_then sub)
    ultimately show ?thesis using Suc by simp
  qed
qed

lemma apply_mapping_local:
  assumes R: "closed_below R"
    and rules: "\<And>source dest callback. (source, dest, callback) \<in> set rules \<Longrightarrow>
                  source \<in> R \<and> outside R dest \<and> local_callback R callback"
  shows "local_on R s (apply_mapping d rules)"
  using rules
proof (induction rules)
  case Nil
  have "apply_mapping d [] = Return" by (rule ext) simp
  then show ?case by (simp add: local_on_Return)
next
  case (Cons rule rules)
  obtain source dest callback where rule: "rule = (source, dest, callback)"
    by (cases rule) auto
  have "apply_mapping d (rule # rules)
        = (\<lambda>s'. and_then (copy_element d source dest s' callback) (apply_mapping d rules))"
    by (rule ext) (simp add: rule)
  moreover have "local_on R s \<dots>"
  proof (rule local_on_and_then)
    from Cons.prems [of source dest callback] rule
    show "local_on R s (\<lambda>s'. copy_element d source dest s' callback)"
      by (intro copy_element_local [OF R]) simp_all
  next
    show "local_on R s (apply_mapping d rules)"
    proof (rule Cons.IH)
      fix a b c assume "(a, b, c) \<in> set rules"
      then show "a \<in> R \<and> outside R b \<and> local_callback R c"
        by (intro Cons.prems) simp
    qed
  qed
  ultimately show ?case by simp
qed

lemma closed_below_dataset: "closed_below {k. prefix ''dataset'' k}"
  by (simp add: closed_below_def)

lemma mapping_local: "local_on {k. prefix ''dataset'' k} s (apply_mapping d mapping)"
proof (rule apply_mapping_local [OF closed_below_dataset])
  fix source dest callback
  assume "(source, dest, callback) \<in> set mapping"
  then show "source \<in> {k. prefix ''dataset'' k} \<and> outside {k. prefix ''dataset'' k} dest \<and>
             local_callback {k. prefix ''dataset'' k} callback"
    using person_attrs_local [OF closed_below_dataset]
      document_attrs_local [OF closed_below_dataset]
      funding_attrs_local [OF closed_below_dataset]
      file_attrs_local [OF closed_below_dataset]
    by (auto simp: mapping_def outside_def local_callback_None)
qed


subsection \<open>Applying a local call again\<close>

lemma local_on_replay:
  assumes "local_on R s g" and "g s = Return s1"
  shows "\<exists>W. dom W \<inter> R = {} \<and> md s1 = md s ++ W \<and>
             (\<forall>s'. agree_on R s s' \<longrightarrow> (\<exists>s2. g s' = Return s2 \<and> md s2 = md s' ++ W))"
proof -
  from assms(1) obtain c W L where
    W: "dom W \<inter> R = {}" and g: "\<And>s'. agree_on R s s' \<Longrightarrow> g s' = finish c (effect W L s')"
    unfolding local_on_def by blast
  from g [OF agree_on_refl] assms(2) have c: "c = None" and s1: "s1 = effect W L s"
    by (cases c; simp)+
  have "\<exists>s2. g s' = Return s2 \<and> md s2 = md s' ++ W" if "agree_on R s s'" for s'
    using g [OF that] c by (simp add: effect_def)
  with W s1 show ?thesis by (auto simp: effect_def)
qed

lemma map_add_twice: "(m ++ W) ++ W = m ++ W"
  by (rule ext) (simp add: map_add_def split: option.splits)

lemma local_on_idempotent:
  assumes "local_on R s g" and "g s = Return s1"
  shows "\<exists>s2. g s1 = Return s2 \<and> md s2 = md s1"
proof -
  from local_on_replay [OF assms] obtain W where
    W: "dom W \<inter> R = {}" "md s1 = md s ++ W"
      "\<And>s'. agree_on R s s' \<Longrightarrow> \<exists>s2. g s' = Return s2 \<and> md s2 = md s' ++ W"
    by blast
  have "agree_on R s s1"
    unfolding agree_on_def
  proof
    fix k assume "k \<in> R"
    with W(1) have "k \<notin> dom W" by auto
    then show "md s1 k = md s k" by (simp add: W(2) map_add_def domIff)
  qed
  from W(3) [OF this] show ?thesis by (simp add: W(2) map_add_twice)
qed

lemma closed_below_prefix: "closed_below {k. prefix source k}"
  by (simp add: closed_below_def)

lemma copy_element_again:
  assumes "\<not> prefix source dest" and "\<not> prefix dest source"
    and "copy_element d source dest s None = Return s1"
  shows "copy_element d source dest s1 None = Return s1"
proof -
  let ?R = "{k. prefix source k}"
  have "outside ?R dest"
    using not_prefix_append [OF assms(1,2)] by (simp add: outside_def)
  then have "local_on ?R s (\<lambda>s'. copy_element d source dest s' None)"
    by (intro copy_element_local closed_below_prefix local_callback_None) simp_all
  from local_on_idempotent [OF this assms(3)] obtain s2 where
    s2: "copy_element d source dest s1 None = Return s2" "md s2 = md s1"
    by blast
  from copy_element_Return_calls [OF s2(1)] s2(2) have "s2 = s1" by simp
  with s2(1) show ?thesis by simp
qed

subsection \<open>The rights pass as a write\<close>

lemma rights_pass_writes:
  "\<exists>RW. dom RW \<subseteq> {''rightsclass'', ''license'', ''accessURL''} \<and>
        (\<forall>x. x ''rights'' = v \<longrightarrow> rights_pass XML x = x ++ RW)"
proof -
  have none: ?thesis if "\<And>x. x ''rights'' = v \<Longrightarrow> rights_pass XML x = x"
    using that by (intro exI [of _ Map.empty]) simp
  consider (absent) "v = None" | (int) n where "v = Some (VInt n)" | (null) "v = Some VNone"
    | (str) markup where "v = Some (VStr markup)"
    by (cases v; cases "the v") auto
  then show ?thesis
  proof cases
    case absent
    then show ?thesis by (intro none) (simp add: rights_pass_def rights_block_def)
  next
    case int
    then show ?thesis by (intro none) (simp add: rights_pass_def rights_block_def)
  next
    case null
    then show ?thesis by (intro none) (simp add: rights_pass_def rights_block_def)
  next
    case str
    show ?thesis
    proof (cases "XML markup")
      case None
      with str show ?thesis by (intro none) (simp add: rights_pass_def rights_block_def)
    next
      case (Some rights)
      show ?thesis
      proof (cases "map_of (attrib rights) ''RIGHTSCATEGORY''")
        case None
        with str Some show ?thesis
          by (intro none) (simp add: rights_pass_def rights_block_def)
      next
        case cat: (Some category)
        define rc where "rc = lower category"
        show ?thesis
        proof (cases "children rights")
          case Nil
          with str Some cat show ?thesis
            by (intro exI [of _ "[''rightsclass'' \<mapsto> VStr rc]"])
               (simp add: rights_pass_def rights_block_def Let_def set_first_child_text_def
                  rc_def)
        next
          case (Cons child others)
          define t where "t = (case text_of child of None \<Rightarrow> VNone | Some t \<Rightarrow> VStr t)"
          consider (licensed) "rc = ''licensed''" | (contractual) "rc = ''contractual''"
            | (other) "rc \<noteq> ''licensed''" "rc \<noteq> ''contractual''"
            by blast
          then show ?thesis
          proof cases
            case licensed
            with str Some cat Cons show ?thesis
              by (intro exI [of _ "[''rightsclass'' \<mapsto> VStr rc, ''license'' \<mapsto> t]"])
                 (simp add: rights_pass_def rights_block_def Let_def set_first_child_text_def
                    rc_def t_def)
          next
            case contractual
            with str Some cat Cons show ?thesis
              by (intro exI [of _ "[''rightsclass'' \<mapsto> VStr rc, ''accessURL'' \<mapsto> t]"])
                 (simp add: rights_pass_def rights_block_def Let_def set_first_child_text_def
                    rc_def t_def)
          next
            case other
            with str Some cat Cons show ?thesis
              by (intro exI [of _ "[''rightsclass'' \<mapsto> VStr rc]"])
                 (simp add: rights_pass_def rights_block_def Let_def set_first_child_text_def
                    rc_def)
          qed
        qed
      qed
    qed
  qed
qed

lemma reader_again:
  assumes "nrd_metadata_reader d XML record = Inr m"
  shows "nrd_metadata_reader d XML m = Inr m"
proof (cases d)
  case 0
  with assms show ?thesis by simp
next
  case (Suc d')
  let ?R = "{k. prefix ''dataset'' k}"
  let ?s0 = "\<lparr>md = record, calls = []\<rparr>"
  let ?m0 = "\<lparr>md = m, calls = []\<rparr>"
  from assms Suc obtain s1 where
    s1: "apply_mapping d' mapping ?s0 = Return s1" and m: "m = rights_pass XML (md s1)"
    by (auto split: result.splits)
  from local_on_replay [OF mapping_local s1] obtain W where
    W: "dom W \<inter> ?R = {}" "md s1 = record ++ W"
      "\<And>s'. agree_on ?R ?s0 s' \<Longrightarrow> \<exists>s2. apply_mapping d' mapping s' = Return s2 \<and> md s2 = md s' ++ W"
    by auto
  from rights_pass_writes [of "md s1 ''rights''" XML] obtain RW where
    RW: "dom RW \<subseteq> {''rightsclass'', ''license'', ''accessURL''}"
      "\<And>x. x ''rights'' = md s1 ''rights'' \<Longrightarrow> rights_pass XML x = x ++ RW"
    by blast
  have m': "m = (record ++ W) ++ RW"
    using RW(2) [of "md s1"] by (simp add: m W(2))
  have rights_RW: "''rights'' \<notin> dom RW"
    using RW(1) by auto
  have "agree_on ?R ?s0 ?m0"
    unfolding agree_on_def
  proof
    fix k assume k: "k \<in> ?R"
    with W(1) have "k \<notin> dom W" by auto
    moreover from k RW(1) have "k \<notin> dom RW" by auto
    ultimately show "md ?m0 k = md ?s0 k"
      by (simp add: m' map_add_def domIff)
  qed
  from W(3) [OF this] obtain s2 where
    s2: "apply_mapping d' mapping ?m0 = Return s2" "md s2 = m ++ W"
    by auto
  have "md s2 ''rights'' = md s1 ''rights''"
    using rights_RW by (simp add: s2(2) m' W(2) map_add_def domIff split: option.splits)
  from RW(2) [of "md s2", OF this] have "rights_pass XML (md s2) = (m ++ W) ++ RW"
    by (simp add: s2(2))
  also have "\<dots> = m"
    unfolding m' by (rule ext) (simp add: map_add_def split: option.splits)
  finally show ?thesis
    using s2(1) Suc by simp
qed


subsection \<open>Enough stack for a finite record\<close>

lemma good_Return: "I s \<Longrightarrow> good A I (Return s)"
  by (simp add: good_def)

lemma good_and_then:
  assumes "good A I r" and "\<And>s1. I s1 \<Longrightarrow> good A I (f s1)"
  shows "good A I (and_then r f)"
  using assms by (cases r) (auto simp: good_def)

lemma good_for_each:
  assumes "I s" and "\<And>i s1. I s1 \<Longrightarrow> good A I (body i s1)"
  shows "good A I (for_each body idxs s)"
  using assms(1)
proof (induction idxs arbitrary: s)
  case Nil
  then show ?case by (simp add: good_Return)
next
  case (Cons i idxs)
  show ?case
    by (simp, rule good_and_then) (rule assms(2) [OF Cons.prems], rule Cons.IH)
qed

lemma unrelated_append:
  assumes "\<not> prefix source dest" and "\<not> prefix dest source"
  shows "\<not> prefix (source @ x) (dest @ y)" and "\<not> prefix (dest @ y) (source @ x)"
proof -
  show "\<not> prefix (source @ x) (dest @ y)"
    using not_prefix_append [OF assms, of y] by (auto dest: append_prefixD)
  show "\<not> prefix (dest @ y) (source @ x)"
    using not_prefix_append [OF assms(2,1), of x] by (auto dest: append_prefixD)
qed

lemma frame_below_source:
  assumes "frame dest s1 s2" and "\<not> prefix source dest" and "\<not> prefix dest source"
    and "prefix source k"
  shows "md s2 k = md s1 k"
proof -
  have "\<not> prefix dest k"
  proof
    assume "prefix dest k"
    with assms(4) have "prefix source dest \<or> prefix dest source"
      by (rule prefix_same_cases [of source k dest, THEN disjE]) auto
    with assms(2,3) show False by blast
  qed
  with assms(1) show ?thesis by (simp add: frame_def)
qed

lemma enough_stack:
  assumes "\<not> prefix source dest" and "\<not> prefix dest source"
    and "\<forall>k. prefix source k \<and> k \<in> dom (md s) \<longrightarrow> length k < length source + n"
    and "\<forall>k c e. prefix source k \<and> md s (k @ ''.count'') = Some c \<and> py_range c = Inl e \<longrightarrow> A e"
  shows "good A (\<lambda>s'. \<forall>k. prefix source k \<longrightarrow> md s' k = md s k)
           (copy_element (Suc n) source dest s None)"
  using assms
proof (induction n arbitrary: source dest s)
  case 0
  have "k \<notin> dom (md s)" if "prefix source k" for k
    using "0.prems"(3) that prefix_length_le [of source k] by fastforce
  then have "source \<notin> dom (md s)" and "source @ ''.count'' \<notin> dom (md s)"
    by simp_all
  then show ?case by (simp add: good_Return domIff)
next
  case (Suc n)
  let ?I = "\<lambda>s'. \<forall>k. prefix source k \<longrightarrow> md s' k = md s k"
  have sub: "good A ?I (copy_element (Suc n) (source @ x) (dest @ y) s1 None)"
    if I: "?I s1" and x: "x \<noteq> []" for x y s1
  proof -
    let ?r = "copy_element (Suc n) (source @ x) (dest @ y) s1 None"
    have un: "\<not> prefix (source @ x) (dest @ y)" "\<not> prefix (dest @ y) (source @ x)"
      by (rule unrelated_append [OF Suc.prems(1,2)])+
    have height: "\<forall>k. prefix (source @ x) k \<and> k \<in> dom (md s1) \<longrightarrow> length k < length (source @ x) + n"
    proof (intro allI impI)
      fix k assume k: "prefix (source @ x) k \<and> k \<in> dom (md s1)"
      then have pk: "prefix source k" by (auto dest: append_prefixD)
      with I k have "k \<in> dom (md s)" by (auto simp: domIff)
      with pk Suc.prems(3) have "length k < length source + Suc n" by blast
      with x show "length k < length (source @ x) + n" by (cases x) auto
    qed
    have counts: "\<forall>k c e. prefix (source @ x) k \<and> md s1 (k @ ''.count'') = Some c \<and>
                   py_range c = Inl e \<longrightarrow> A e"
    proof (intro allI impI)
      fix k c e
      assume k: "prefix (source @ x) k \<and> md s1 (k @ ''.count'') = Some c \<and> py_range c = Inl e"
      then have pk: "prefix source k" by (auto dest: append_prefixD)
      then have "prefix source (k @ ''.count'')" by (rule prefix_prefix)
      with I k have "md s (k @ ''.count'') = Some c" by simp
      with pk k Suc.prems(4) show "A e" by blast
    qed
    from Suc.IH [OF un height counts]
    have inner: "\<forall>e s'. ?r = Raise e s' \<longrightarrow> A e"
      by (simp add: good_def)
    have un': "\<not> prefix source (dest @ y)" "\<not> prefix (dest @ y) source"
      using unrelated_append [OF Suc.prems(1,2), where x = "[]" and y = y] by simp_all
    have "md (state_of ?r) k = md s1 k" if "prefix source k" for k
      by (rule frame_below_source [OF copy_element_frame un' that])
    with I have "?I (state_of ?r)" by simp
    with inner show ?thesis by (simp add: good_def)
  qed
  have idx: "good A ?I (copy_element (Suc n) (indexed source i) (indexed dest i) s1 None)"
    if "?I s1" for i s1
    using sub [OF that, of "''.'' @ show_nat i" "''.'' @ show_nat i"] by (simp add: indexed_def)
  have same: "good A ?I (copy_element (Suc n) (source @ x) dest s1 None)"
    if "?I s1" and "x \<noteq> []" for x s1
    using sub [OF that, of "[]"] by simp
  have wr: "?I (s\<lparr>md := (md s)(dest @ y := v)\<rparr>)" for y v
  proof (intro allI impI)
    fix k assume "prefix source k"
    with unrelated_append(1) [OF Suc.prems(1,2), where x = "[]" and y = y]
    have "k \<noteq> dest @ y" by auto
    then show "md (s\<lparr>md := (md s)(dest @ y := v)\<rparr>) k = md s k" by simp
  qed
  show ?case
  proof (cases "source \<in> dom (md s)")
    case True
    then show ?thesis
      apply (simp del: and_then.simps copy_element.simps add: copy_element.simps(2) [of "Suc n"])
      apply (rule good_and_then, rule good_Return, use wr [of "[]"] in simp)
      apply (rule good_and_then, erule sub, simp)
      apply (rule good_and_then, erule sub, simp)
      apply (rule good_and_then, erule sub, simp)
      apply (rule good_and_then, erule same, simp)
      apply (erule good_Return)
      done
  next
    case False
    define count where "count = (case md s (source @ ''.count'') of None \<Rightarrow> VInt 0 | Some c \<Rightarrow> c)"
    show ?thesis
    proof (cases "truthy count")
      case no: False
      with False show ?thesis
        by (simp add: count_def good_Return del: copy_element.simps
              add: copy_element.simps(2) [of "Suc n"])
    next
      case yes: True
      show ?thesis
      proof (cases "py_range count")
        case (Inl e)
        from False yes have "md s (source @ ''.count'') = Some count"
          by (auto simp: count_def split: option.splits)
        with Inl Suc.prems(4) have "A e" by blast
        with False yes Inl wr [of "''.count''" "Some count"] show ?thesis
          by (simp add: count_def [symmetric] good_def Let_def del: copy_element.simps
                add: copy_element.simps(2) [of "Suc n"])
      next
        case (Inr idxs)
        have "good A ?I (for_each (\<lambda>i s. copy_element (Suc n) (indexed source i) (indexed dest i) s None)
                         idxs (s\<lparr>md := (md s)(dest @ ''.count'' \<mapsto> count)\<rparr>))"
          by (rule good_for_each [where I = ?I])
             (rule wr [of "''.count''" "Some count"], rule idx)
        with False yes Inr show ?thesis
          by (simp add: count_def [symmetric] Let_def del: copy_element.simps
                add: copy_element.simps(2) [of "Suc n"])
      qed
    qed
  qed
qed

lemma finite_record_height:
  assumes "finite (dom m)"
  shows "\<exists>n. \<forall>k \<in> dom m. length k < n"
proof -
  from assms have "finite (length ` dom m)" by simp
  then obtain n where "\<forall>l \<in> length ` dom m. l < n"
    using finite_nat_set_iff_bounded by blast
  then show ?thesis by auto
qed

lemma enough_stack_for_finite_record:
  assumes "finite (dom (md s))" and "\<not> prefix source dest" and "\<not> prefix dest source"
    and "\<forall>k c e. prefix source k \<and> md s (k @ ''.count'') = Some c \<and> py_range c = Inl e \<longrightarrow> A e"
  shows "\<exists>D. \<forall>d \<ge> D. \<forall>e s'. copy_element d source dest s None = Raise e s' \<longrightarrow> A e"
proof -
  from finite_record_height [OF assms(1)] obtain n where n: "\<forall>k \<in> dom (md s). length k < n"
    by blast
  show ?thesis
  proof (intro exI [of _ "Suc n"] allI impI)
    fix d e s'
    assume d: "Suc n \<le> d" and raise: "copy_element d source dest s None = Raise e s'"
    from d obtain n' where n': "d = Suc n'" "n \<le> n'" by (cases d) auto
    have "\<forall>k. prefix source k \<and> k \<in> dom (md s) \<longrightarrow> length k < length source + n'"
    proof (intro allI impI)
      fix k assume "prefix source k \<and> k \<in> dom (md s)"
      with n have "length k < n" by blast
      with n'(2) show "length k < length source + n'" by simp
    qed
    from enough_stack [OF assms(2,3) this assms(4)] raise n'(1) show "A e"
      by (auto simp: good_def)
  qed
qed

lemma finite_record_returns:
  assumes "finite (dom (md s))" and "\<not> prefix source dest" and "\<not> prefix dest source"
    and "\<forall>k c. prefix source k \<and> md s (k @ ''.count'') = Some c \<longrightarrow> (\<exists>i. c = VInt i)"
  shows "\<exists>D. \<forall>d \<ge> D. \<exists>s'. copy_element d source dest s None = Return s'"
proof -
  have "\<forall>k c e. prefix source k \<and> md s (k @ ''.count'') = Some c \<and> py_range c = Inl e \<longrightarrow> False"
    using assms(4) by fastforce
  from enough_stack_for_finite_record [OF assms(1-3) this] obtain D where
    D: "\<forall>d \<ge> D. \<forall>e s'. copy_element d source dest s None \<noteq> Raise e s'"
    by blast
  have "\<exists>s'. copy_element d source dest s None = Return s'" if "D \<le> d" for d
    using D that by (cases "copy_element d source dest s None") auto
  then show ?thesis by blast
qed

subsection \<open>Recursion without a bound\<close>


lemma not_prefix_indexed_count: "\<not> prefix (indexed src i) (src @ ''.count'')"
  by (rule dest_count_not_under_indexed)

lemma unbounded_recursion:
  assumes "\<forall>k. prefix src k \<longrightarrow> md s k = (if k = src @ ''.count'' then Some (VInt 1) else None)"
  shows "\<exists>s'. copy_element d src (indexed src 0) s None = Raise RecursionError s'"
  using assms
proof (induction d arbitrary: src s)
  case 0
  show ?case by simp
next
  case (Suc d)
  let ?dest = "indexed src 0"
  let ?s1 = "s\<lparr>md := (md s)(?dest @ ''.count'' \<mapsto> VInt 1)\<rparr>"
  from Suc.prems have absent: "md s src = None" and count: "md s (src @ ''.count'') = Some (VInt 1)"
    by simp_all
  have "\<forall>k. prefix ?dest k \<longrightarrow> md ?s1 k = (if k = ?dest @ ''.count'' then Some (VInt 1) else None)"
  proof (intro allI impI)
    fix k assume k: "prefix ?dest k"
    then have "prefix src k"
      using prefix_indexed [of src 0] by (rule_tac prefix_order.trans)
    moreover from k not_prefix_indexed_count [of src 0] have "k \<noteq> src @ ''.count''" by auto
    ultimately have "md s k = None" using Suc.prems by simp
    then show "md ?s1 k = (if k = ?dest @ ''.count'' then Some (VInt 1) else None)" by simp
  qed
  from Suc.IH [OF this] obtain s' where
    "copy_element d ?dest (indexed ?dest 0) ?s1 None = Raise RecursionError s'"
    by blast
  with absent count show ?case
    by (simp add: domIff Let_def del: copy_element.simps add: copy_element.simps(2) [of d src])
qed

lemma unbounded_recursion_example:
  "\<exists>s'. copy_element d ''a'' ''a.0'' \<lparr>md = [''a.count'' \<mapsto> VInt 1], calls = []\<rparr> None
        = Raise RecursionError s'"
proof -
  have "\<forall>k. prefix ''a'' k \<longrightarrow>
          md \<lparr>md = [''a.count'' \<mapsto> VInt 1], calls = []\<rparr> k
          = (if k = ''a'' @ ''.count'' then Some (VInt 1) else None)"
    by simp
  from unbounded_recursion [OF this, of d] show ?thesis
    by (simp add: indexed_def show_nat_0)
qed

subsection \<open>Enough stack for a finite record and a tame callback\<close>

lemma shallow_append: "shallow n source m \<Longrightarrow> shallow n (source @ x) m"
  unfolding shallow_def by (auto dest: append_prefixD)

lemma shallow_step: "shallow (Suc n) source m \<Longrightarrow> x \<noteq> [] \<Longrightarrow> shallow n (source @ x) m"
proof (unfold shallow_def, intro allI impI)
  fix k
  assume all: "\<forall>k. prefix source k \<and> k \<in> dom m \<longrightarrow> length k < length source + Suc n"
    and x: "x \<noteq> []" and k: "prefix (source @ x) k \<and> k \<in> dom m"
  from k have "prefix source k" by (auto dest: append_prefixD)
  with all k have "length k < length source + Suc n" by blast
  with x show "length k < length (source @ x) + n" by (cases x) auto
qed

lemma shallow_mono: "shallow n source m \<Longrightarrow> n \<le> n' \<Longrightarrow> shallow n' source m"
  unfolding shallow_def by fastforce

lemma shallow_cong:
  assumes "shallow n source m" and "\<And>k. prefix source k \<Longrightarrow> m' k = m k"
  shows "shallow n source m'"
  using assms unfolding shallow_def by (auto simp: domIff)

lemma integer_counts_append: "integer_counts source m \<Longrightarrow> integer_counts (source @ x) m"
  unfolding integer_counts_def by (blast dest: append_prefixD)

lemma integer_counts_cong:
  assumes "integer_counts source m" and "\<And>k. prefix source k \<Longrightarrow> m' k = m k"
  shows "integer_counts source m'"
proof (unfold integer_counts_def, intro allI impI)
  fix k v
  assume k: "prefix source k \<and> m' (k @ ''.count'') = Some v"
  then have "prefix source (k @ ''.count'')" by (simp add: prefix_prefix)
  from assms(2) [OF this] k have "m (k @ ''.count'') = Some v" by simp
  with assms(1) k show "\<exists>i. v = VInt i" unfolding integer_counts_def by blast
qed

lemma below_source_kept:
  assumes "\<forall>k. \<not> prefix dest k \<longrightarrow> md s1 k = md s k"
    and "\<not> prefix source dest" and "\<not> prefix dest source" and "prefix source k"
  shows "md s1 k = md s k"
proof -
  have "\<not> prefix dest k"
  proof
    assume "prefix dest k"
    with assms(4) have "prefix source dest \<or> prefix dest source"
      by (rule prefix_same_cases [of source k dest, THEN disjE]) auto
    with assms(2,3) show False by blast
  qed
  with assms(1) show ?thesis by simp
qed

lemma enough_stack_below:
  assumes un: "\<not> prefix source dest" "\<not> prefix dest source"
    and sh: "shallow n source (md s)" and ic: "integer_counts source (md s)"
    and I: "\<forall>k. \<not> prefix dest k \<longrightarrow> md s1 k = md s k"
  shows "good (\<lambda>e. False) (\<lambda>s'. \<forall>k. \<not> prefix dest k \<longrightarrow> md s' k = md s k)
           (copy_element (Suc n) (source @ x) (dest @ y) s1 None)"
proof -
  let ?r = "copy_element (Suc n) (source @ x) (dest @ y) s1 None"
  have same: "md s1 k = md s k" if "prefix source k" for k
    by (rule below_source_kept [OF I un that])
  have un': "\<not> prefix (source @ x) (dest @ y)" "\<not> prefix (dest @ y) (source @ x)"
    by (rule unrelated_append [OF un])+
  have "shallow n (source @ x) (md s1)"
    by (rule shallow_append [OF shallow_cong [OF sh same]])
  then have height: "\<forall>k. prefix (source @ x) k \<and> k \<in> dom (md s1) \<longrightarrow>
                       length k < length (source @ x) + n"
    by (simp only: shallow_def)
  have "integer_counts (source @ x) (md s1)"
    by (rule integer_counts_append [OF integer_counts_cong [OF ic same]])
  then have counts: "\<forall>k c e. prefix (source @ x) k \<and> md s1 (k @ ''.count'') = Some c \<and>
                       py_range c = Inl e \<longrightarrow> False"
    unfolding integer_counts_def by fastforce
  from enough_stack [OF un' height counts]
  have returns: "\<forall>e s'. ?r \<noteq> Raise e s'"
    by (simp add: good_def)
  have "frame (dest @ y) s1 (state_of ?r)" by (rule copy_element_frame)
  then have "frame dest s1 (state_of ?r)" by (rule frame_mono [rotated]) simp
  with I have "\<forall>k. \<not> prefix dest k \<longrightarrow> md (state_of ?r) k = md s k"
    by (simp add: frame_def)
  with returns show ?thesis by (simp add: good_def)
qed

lemma tame_person_attrs: "tame 2 person_attrs"
proof (unfold tame_def, intro allI impI)
  fix n source dest and s :: state
  assume h: "\<not> prefix source dest \<and> \<not> prefix dest source \<and>
             shallow n source (md s) \<and> integer_counts source (md s)"
  let ?I = "\<lambda>s'. \<forall>k. \<not> prefix dest k \<longrightarrow> md s' k = md s k"
  have sub: "good (\<lambda>e. False) ?I (copy_element (Suc n) (source @ x) (dest @ y) s1 None)"
    if "?I s1" for x y s1
    using h that by (intro enough_stack_below) simp_all
  have "good (\<lambda>e. False) ?I (person_attrs (Suc (Suc n)) source dest s)"
    unfolding person_attrs.simps
    apply (rule good_and_then, rule sub, simp)
    apply (rule good_and_then, erule sub)
    apply (erule sub)
    done
  then show "\<exists>s'. person_attrs (n + 2) source dest s = Return s' \<and> ?I s'"
    by (cases "person_attrs (Suc (Suc n)) source dest s") (auto simp: good_def)
qed

lemma tame_invoke:
  assumes "tame c f" and "\<not> prefix source dest" and "\<not> prefix dest source"
    and "shallow n source (md s)" and "integer_counts source (md s)"
  shows "good (\<lambda>e. False) (\<lambda>s'. \<forall>k. \<not> prefix dest k \<longrightarrow> md s' k = md s k)
           (invoke f (n + c) source dest s)"
proof -
  from assms(1) [unfolded tame_def, rule_format, of source dest n "s\<lparr>calls := []\<rparr>"] assms(2-5)
  obtain s' where "f (n + c) source dest (s\<lparr>calls := []\<rparr>) = Return s'"
    and "\<forall>k. \<not> prefix dest k \<longrightarrow> md s' k = md s k"
    by auto
  then show ?thesis by (simp add: invoke_def good_def)
qed

lemma enough_stack_callback:
  assumes "\<not> prefix source dest" and "\<not> prefix dest source"
    and "shallow n source (md s)" and "integer_counts source (md s)"
    and "tame c f"
  shows "good (\<lambda>e. False) (\<lambda>s'. \<forall>k. \<not> prefix dest k \<longrightarrow> md s' k = md s k)
           (copy_element (Suc (n + c)) source dest s (Some f))"
  using assms(1-4)
proof (induction n arbitrary: source dest s)
  case 0
  have "k \<notin> dom (md s)" if "prefix source k" for k
    using "0.prems"(3) that prefix_length_le [of source k] by (fastforce simp: shallow_def)
  then have "source \<notin> dom (md s)" and "source @ ''.count'' \<notin> dom (md s)"
    by simp_all
  then show ?case by (simp add: good_Return domIff)
next
  case (Suc n)
  let ?A = "\<lambda>e::error. False"
  let ?I = "\<lambda>s'. \<forall>k. \<not> prefix dest k \<longrightarrow> md s' k = md s k"
  note un = Suc.prems(1,2)
  have same: "md s1 k = md s k" if "?I s1" and "prefix source k" for s1 k
    by (rule below_source_kept [OF that(1) un that(2)])
  have sh1: "shallow (Suc n) source (md s1)" if "?I s1" for s1
    by (rule shallow_cong [OF Suc.prems(3)]) (rule same [OF that])
  have ic1: "integer_counts source (md s1)" if "?I s1" for s1
    by (rule integer_counts_cong [OF Suc.prems(4)]) (rule same [OF that])
  have weaken: "?I s2" if "?I s1" and "\<forall>k. \<not> prefix (dest @ y) k \<longrightarrow> md s2 k = md s1 k"
    for s1 s2 y
  proof (intro allI impI)
    fix k assume k: "\<not> prefix dest k"
    then have "\<not> prefix (dest @ y) k" by (auto dest: append_prefixD)
    with that k show "md s2 k = md s k" by simp
  qed
  have sub: "good ?A ?I (copy_element (Suc (n + c)) (source @ x) (dest @ y) s1 None)"
    if I: "?I s1" and x: "x \<noteq> []" for x y s1
  proof -
    have un': "\<not> prefix (source @ x) (dest @ y)" "\<not> prefix (dest @ y) (source @ x)"
      by (rule unrelated_append [OF un])+
    have "shallow (n + c) (source @ x) (md s1)"
      by (rule shallow_mono [OF shallow_step [OF sh1 [OF I] x]]) simp
    from enough_stack_below [OF un' this integer_counts_append [OF ic1 [OF I]], of s1 "[]" "[]"]
    have "good ?A (\<lambda>s'. \<forall>k. \<not> prefix (dest @ y) k \<longrightarrow> md s' k = md s1 k)
            (copy_element (Suc (n + c)) (source @ x) (dest @ y) s1 None)"
      by simp
    with I show ?thesis
      unfolding good_def using weaken [OF I, of y] by blast
  qed
  have with_callback:
    "good ?A ?I (copy_element (Suc (n + c)) (source @ x) (dest @ y) s1 (Some f))"
    if I: "?I s1" and x: "x \<noteq> []" for x y s1
  proof -
    have un': "\<not> prefix (source @ x) (dest @ y)" "\<not> prefix (dest @ y) (source @ x)"
      by (rule unrelated_append [OF un])+
    from Suc.IH [OF un' shallow_step [OF sh1 [OF I] x] integer_counts_append [OF ic1 [OF I]]]
    have "good ?A (\<lambda>s'. \<forall>k. \<not> prefix (dest @ y) k \<longrightarrow> md s' k = md s1 k)
            (copy_element (Suc (n + c)) (source @ x) (dest @ y) s1 (Some f))" .
    with I show ?thesis
      unfolding good_def using weaken [OF I, of y] by blast
  qed
  have idx: "good ?A ?I (copy_element (Suc (n + c)) (indexed source i) (indexed dest i) s1 (Some f))"
    if "?I s1" for i s1
    using with_callback [OF that, of "''.'' @ show_nat i" "''.'' @ show_nat i"]
    by (simp add: indexed_def)
  have same_dest: "good ?A ?I (copy_element (Suc (n + c)) (source @ x) dest s1 None)"
    if "?I s1" and "x \<noteq> []" for x s1
    using sub [OF that, of "[]"] by simp
  have call: "good ?A ?I (invoke f (Suc (n + c)) source dest s1)" if I: "?I s1" for s1
  proof -
    from tame_invoke [OF assms(5) un sh1 [OF I] ic1 [OF I]]
    have "good ?A (\<lambda>s'. \<forall>k. \<not> prefix dest k \<longrightarrow> md s' k = md s1 k)
            (invoke f (Suc (n + c)) source dest s1)"
      by simp
    with I show ?thesis
      unfolding good_def using weaken [OF I, of "[]"] by simp
  qed
  have wr: "?I (s\<lparr>md := (md s)(dest @ y := v)\<rparr>)" for y v
    by auto
  have depth: "Suc (Suc n + c) = Suc (Suc (n + c))" by simp
  show ?case
  proof (cases "source \<in> dom (md s)")
    case True
    then show ?thesis
      unfolding depth
      apply (simp del: and_then.simps copy_element.simps
               add: copy_element.simps(2) [of "Suc (n + c)"])
      apply (rule good_and_then, rule good_Return, use wr [of "[]"] in simp)
      apply (rule good_and_then, erule sub, simp)
      apply (rule good_and_then, erule sub, simp)
      apply (rule good_and_then, erule sub, simp)
      apply (rule good_and_then, erule same_dest, simp)
      apply (erule call)
      done
  next
    case False
    define count where "count = (case md s (source @ ''.count'') of None \<Rightarrow> VInt 0 | Some c \<Rightarrow> c)"
    show ?thesis
    proof (cases "truthy count")
      case no: False
      with False show ?thesis
        unfolding depth
        by (simp add: count_def good_Return del: copy_element.simps
              add: copy_element.simps(2) [of "Suc (n + c)"])
    next
      case yes: True
      from False yes have "md s (source @ ''.count'') = Some count"
        by (auto simp: count_def split: option.splits)
      with Suc.prems(4) obtain i where i: "count = VInt i"
        unfolding integer_counts_def by blast
      have "good ?A ?I
              (for_each (\<lambda>i s. copy_element (Suc (n + c)) (indexed source i) (indexed dest i) s (Some f))
                 [0..<nat i] (s\<lparr>md := (md s)(dest @ ''.count'' \<mapsto> count)\<rparr>))"
        by (rule good_for_each [where I = ?I])
           (rule wr [of "''.count''" "Some count"], rule idx)
      with False yes i show ?thesis
        unfolding depth
        by (simp add: count_def [symmetric] Let_def del: copy_element.simps
              add: copy_element.simps(2) [of "Suc (n + c)"])
    qed
  qed
qed


lemma enough_stack_callback_below:
  assumes un: "\<not> prefix source dest" "\<not> prefix dest source"
    and sh: "shallow n source (md s)" and ic: "integer_counts source (md s)"
    and I: "\<forall>k. \<not> prefix dest k \<longrightarrow> md s1 k = md s k"
    and f: "tame c f"
  shows "good (\<lambda>e. False) (\<lambda>s'. \<forall>k. \<not> prefix dest k \<longrightarrow> md s' k = md s k)
           (copy_element (Suc (n + c)) (source @ x) (dest @ y) s1 (Some f))"
proof -
  let ?r = "copy_element (Suc (n + c)) (source @ x) (dest @ y) s1 (Some f)"
  have same: "md s1 k = md s k" if "prefix source k" for k
    by (rule below_source_kept [OF I un that])
  have un': "\<not> prefix (source @ x) (dest @ y)" "\<not> prefix (dest @ y) (source @ x)"
    by (rule unrelated_append [OF un])+
  have sh': "shallow n (source @ x) (md s1)"
    by (rule shallow_append [OF shallow_cong [OF sh same]])
  have ic': "integer_counts (source @ x) (md s1)"
    by (rule integer_counts_append [OF integer_counts_cong [OF ic same]])
  from enough_stack_callback [OF un' sh' ic' f]
  have r: "good (\<lambda>e. False) (\<lambda>s'. \<forall>k. \<not> prefix (dest @ y) k \<longrightarrow> md s' k = md s1 k) ?r" .
  have "md (state_of ?r) k = md s k" if k: "\<not> prefix dest k" for k
  proof -
    from k have "\<not> prefix (dest @ y) k" by (auto dest: append_prefixD)
    with r have "md (state_of ?r) k = md s1 k" by (simp add: good_def)
    with I k show ?thesis by simp
  qed
  with r show ?thesis by (simp add: good_def)
qed

lemma tame_file_attrs: "tame 2 file_attrs"
proof (unfold tame_def, intro allI impI)
  fix n source dest and s :: state
  assume h: "\<not> prefix source dest \<and> \<not> prefix dest source \<and>
             shallow n source (md s) \<and> integer_counts source (md s)"
  let ?I = "\<lambda>s'. \<forall>k. \<not> prefix dest k \<longrightarrow> md s' k = md s k"
  have sub: "good (\<lambda>e. False) ?I (copy_element (Suc n) (source @ x) (dest @ y) s1 None)"
    if "?I s1" for x y s1
    using h that by (intro enough_stack_below) simp_all
  have "good (\<lambda>e. False) ?I (file_attrs (Suc (Suc n)) source dest s)"
    unfolding file_attrs.simps
    apply (rule good_and_then, rule sub, simp)
    apply (rule good_and_then, erule sub)
    apply (rule good_and_then, erule sub)
    apply (erule sub)
    done
  then show "\<exists>s'. file_attrs (n + 2) source dest s = Return s' \<and> ?I s'"
    by (cases "file_attrs (Suc (Suc n)) source dest s") (auto simp: good_def)
qed

lemma tame_document_attrs: "tame 4 document_attrs"
proof (unfold tame_def, intro allI impI)
  fix n source dest and s :: state
  assume h: "\<not> prefix source dest \<and> \<not> prefix dest source \<and>
             shallow n source (md s) \<and> integer_counts source (md s)"
  let ?I = "\<lambda>s'. \<forall>k. \<not> prefix dest k \<longrightarrow> md s' k = md s k"
  from h have deep: "shallow (n + 2) source (md s)"
    by (auto intro: shallow_mono)
  have sub: "good (\<lambda>e. False) ?I (copy_element (Suc (n + 2)) (source @ x) (dest @ y) s1 None)"
    if "?I s1" for x y s1
    using h deep that by (intro enough_stack_below) simp_all
  have same_dest: "good (\<lambda>e. False) ?I (copy_element (Suc (n + 2)) (source @ x) dest s1 None)"
    if "?I s1" for x s1
    using sub [OF that, of x "[]"] by simp
  have person:
    "good (\<lambda>e. False) ?I
       (copy_element (Suc (n + 2)) (source @ x) (dest @ y) s1 (Some person_attrs))"
    if "?I s1" for x y s1
    using h that by (intro enough_stack_callback_below tame_person_attrs) simp_all
  have depth: "n + 4 = Suc (Suc (n + 2))" by simp
  have "good (\<lambda>e. False) ?I (document_attrs (Suc (Suc (n + 2))) source dest s)"
    unfolding document_attrs.simps
    apply (rule good_and_then, rule sub, simp)
    apply (rule good_and_then, erule same_dest)
    apply (rule good_and_then, erule sub)
    apply (rule good_and_then, erule person)
    apply (erule sub)
    done
  then show "\<exists>s'. document_attrs (n + 4) source dest s = Return s' \<and> ?I s'"
    unfolding depth
    by (cases "document_attrs (Suc (Suc (n + 2))) source dest s") (auto simp: good_def)
qed

lemma tame_funding_attrs: "tame 4 funding_attrs"
proof (unfold tame_def, intro allI impI)
  fix n source dest and s :: state
  assume h: "\<not> prefix source dest \<and> \<not> prefix dest source \<and>
             shallow n source (md s) \<and> integer_counts source (md s)"
  let ?I = "\<lambda>s'. \<forall>k. \<not> prefix dest k \<longrightarrow> md s' k = md s k"
  from h have deep: "shallow (n + 2) source (md s)"
    by (auto intro: shallow_mono)
  have sub: "good (\<lambda>e. False) ?I (copy_element (Suc (n + 2)) (source @ x) (dest @ y) s1 None)"
    if "?I s1" for x y s1
    using h deep that by (intro enough_stack_below) simp_all
  have person:
    "good (\<lambda>e. False) ?I
       (copy_element (Suc (n + 2)) (source @ x) (dest @ y) s1 (Some person_attrs))"
    if "?I s1" for x y s1
    using h that by (intro enough_stack_callback_below tame_person_attrs) simp_all
  have depth: "n + 4 = Suc (Suc (n + 2))" by simp
  have "good (\<lambda>e. False) ?I (funding_attrs (Suc (Suc (n + 2))) source dest s)"
    unfolding funding_attrs.simps
    apply (rule good_and_then, rule sub, simp)
    apply (erule person)
    done
  then show "\<exists>s'. funding_attrs (n + 4) source dest s = Return s' \<and> ?I s'"
    unfolding depth
    by (cases "funding_attrs (Suc (Suc (n + 2))) source dest s") (auto simp: good_def)
qed

section \<open>C1: the scenario record\<close>

text \<open>
  C1 says that the reader maps the scenario record to \<open>title\<close>, \<open>creator.count\<close>,
  \<open>creator.0/name\<close> and \<open>creator.1/name\<close>. On that record the reader writes \<open>title\<close>
  and \<open>creator.count\<close> only: neither \<open>dataset/nrd:creator.0\<close> nor
  \<open>dataset/nrd:creator.1\<close> is a key, so each instance is taken for an absent element
  and \<open>person_attrs\<close> is not called.
\<close>

theorem scenario_counterexample:
  "nrd_metadata_reader 1000 sample_XML scenario_record
     = Inr (scenario_record(''title'' \<mapsto> VStr ''Sample'', ''creator.count'' \<mapsto> VInt 2)) \<and>
   (scenario_record(''title'' \<mapsto> VStr ''Sample'', ''creator.count'' \<mapsto> VInt 2)) ''creator.0/name''
     = None \<and>
   (scenario_record(''title'' \<mapsto> VStr ''Sample'', ''creator.count'' \<mapsto> VInt 2)) ''creator.1/name''
     = None"
  using scenario_reader [of 997 sample_XML] by (simp add: scenario_record_def)

text \<open>
  C1, as the code has it: with at least three stack frames the reader returns the
  scenario record with \<open>title = Sample\<close> and \<open>creator.count = 2\<close> added and nothing
  else; when each instance has a key of its own (\<open>dataset/nrd:creator.0\<close> and
  \<open>dataset/nrd:creator.1\<close>, with any values) the reader, with at least six frames,
  also adds \<open>creator.0\<close>, \<open>creator.0/name = Alice\<close>, \<open>creator.1\<close> and
  \<open>creator.1/name = Bob\<close>.
\<close>

theorem scenario_projection:
  "nrd_metadata_reader (Suc (Suc (Suc d))) XML scenario_record
     = Inr (scenario_record(''title'' \<mapsto> VStr ''Sample'', ''creator.count'' \<mapsto> VInt 2)) \<and>
   nrd_metadata_reader (Suc (Suc (Suc (Suc (Suc (Suc d)))))) XML
       (scenario_record_with_instances v0 v1)
     = Inr ((scenario_record_with_instances v0 v1)
              (''title'' \<mapsto> VStr ''Sample'', ''creator.count'' \<mapsto> VInt 2,
               ''creator.0'' \<mapsto> v0, ''creator.0/name'' \<mapsto> VStr ''Alice'',
               ''creator.1'' \<mapsto> v1, ''creator.1/name'' \<mapsto> VStr ''Bob''))"
  using scenario_reader [of d XML] scenario_with_instances_reader [of d XML v0 v1]
  by (simp del: nrd_metadata_reader.simps)

section \<open>C2: a rights value that does not parse\<close>

text \<open>
  C2 says that whenever the rights pass fails, at any step, none of \<open>rightsclass\<close>,
  \<open>license\<close> and \<open>accessURL\<close> is set. When the step that fails is the read of the first
  child, \<open>rightsclass\<close> has been written before: for a rights declaration of category
  \<open>LICENSED\<close> without children the \<open>try\<close> block raises \<open>IndexError\<close> and the reader
  returns a record with \<open>rightsclass = licensed\<close>.
\<close>

theorem rights_failure_counterexample:
  "rights_block sample_XML
     [''dataset/nrd:rights'' \<mapsto> VStr ''<rights RIGHTSCATEGORY='LICENSED'/>'',
      ''rights'' \<mapsto> VStr ''<rights RIGHTSCATEGORY='LICENSED'/>'']
   = Raise IndexError
       [''dataset/nrd:rights'' \<mapsto> VStr ''<rights RIGHTSCATEGORY='LICENSED'/>'',
        ''rights'' \<mapsto> VStr ''<rights RIGHTSCATEGORY='LICENSED'/>'',
        ''rightsclass'' \<mapsto> VStr ''licensed''] \<and>
   nrd_metadata_reader 3 sample_XML
     [''dataset/nrd:rights'' \<mapsto> VStr ''<rights RIGHTSCATEGORY='LICENSED'/>'']
   = Inr [''dataset/nrd:rights'' \<mapsto> VStr ''<rights RIGHTSCATEGORY='LICENSED'/>'',
          ''rights'' \<mapsto> VStr ''<rights RIGHTSCATEGORY='LICENSED'/>'',
          ''rightsclass'' \<mapsto> VStr ''licensed'']"
proof -
  have block: "rights_block sample_XML
     [''dataset/nrd:rights'' \<mapsto> VStr ''<rights RIGHTSCATEGORY='LICENSED'/>'',
      ''rights'' \<mapsto> VStr ''<rights RIGHTSCATEGORY='LICENSED'/>'']
   = Raise IndexError
       [''dataset/nrd:rights'' \<mapsto> VStr ''<rights RIGHTSCATEGORY='LICENSED'/>'',
        ''rights'' \<mapsto> VStr ''<rights RIGHTSCATEGORY='LICENSED'/>'',
        ''rightsclass'' \<mapsto> VStr ''licensed'']"
    by (simp add: rights_block_def sample_XML_def lower_LICENSED set_first_child_text_def)
  have "nrd_metadata_reader (Suc (Suc (Suc 0))) sample_XML
     [''dataset/nrd:rights'' \<mapsto> VStr ''<rights RIGHTSCATEGORY='LICENSED'/>'']
   = Inr [''dataset/nrd:rights'' \<mapsto> VStr ''<rights RIGHTSCATEGORY='LICENSED'/>'',
          ''rights'' \<mapsto> VStr ''<rights RIGHTSCATEGORY='LICENSED'/>'',
          ''rightsclass'' \<mapsto> VStr ''licensed'']"
    by (simp only: nrd_metadata_reader.simps rights_only_pass result.case)
       (simp add: rights_pass_def block)
  with block show ?thesis by (simp add: numeral_3_eq_3)
qed

text \<open>
  C2, as the code has it: when the rule-table pass has returned and the \<open>try\<close> block
  raises, the reader raises nothing and returns the record as the block left it.
  Every key other than \<open>rightsclass\<close> has the value it had after the rule-table pass
  (\<open>license\<close> and \<open>accessURL\<close> among them, so they are not written). If the failure
  is anything but the missing first child (no \<open>rights\<close> key, a value that is not a
  string, markup that does not parse, no \<open>RIGHTSCATEGORY\<close> attribute) the record is
  exactly the one after the rule-table pass; if it is the missing first child
  (\<open>IndexError\<close>), \<open>rightsclass\<close> has been set to \<open>licensed\<close> or \<open>contractual\<close>.
\<close>

theorem rights_failure_swallowed:
  assumes "apply_mapping d mapping \<lparr>md = record, calls = []\<rparr> = Return s"
    and "rights_block XML (md s) = Raise e result'"
  shows "nrd_metadata_reader (Suc d) XML record = Inr result' \<and>
         (\<forall>k. k \<noteq> ''rightsclass'' \<longrightarrow> result' k = md s k) \<and>
         (e \<noteq> IndexError \<longrightarrow> result' = md s) \<and>
         (e = IndexError \<longrightarrow>
            result' = (md s)(''rightsclass'' \<mapsto> VStr ''licensed'') \<or>
            result' = (md s)(''rightsclass'' \<mapsto> VStr ''contractual''))"
  using assms rights_block_Raise [OF assms(2)] by (auto simp: rights_pass_def)

theorem rights_failure_swallowed_witness:
  "apply_mapping (Suc (Suc 0)) mapping \<lparr>md = [''dataset/nrd:rights'' \<mapsto> VStr ''no markup''], calls = []\<rparr>
     = Return \<lparr>md = [''dataset/nrd:rights'' \<mapsto> VStr ''no markup'', ''rights'' \<mapsto> VStr ''no markup''],
               calls = []\<rparr> \<and>
   rights_block sample_XML
       (md \<lparr>md = [''dataset/nrd:rights'' \<mapsto> VStr ''no markup'', ''rights'' \<mapsto> VStr ''no markup''],
            calls = []\<rparr>)
     = Raise XMLSyntaxError
         [''dataset/nrd:rights'' \<mapsto> VStr ''no markup'', ''rights'' \<mapsto> VStr ''no markup''] \<and>
   nrd_metadata_reader (Suc (Suc (Suc 0))) sample_XML [''dataset/nrd:rights'' \<mapsto> VStr ''no markup'']
     = Inr [''dataset/nrd:rights'' \<mapsto> VStr ''no markup'', ''rights'' \<mapsto> VStr ''no markup''] \<and>
   XMLSyntaxError \<noteq> IndexError"
proof -
  let ?s = "\<lparr>md = [''dataset/nrd:rights'' \<mapsto> VStr ''no markup'', ''rights'' \<mapsto> VStr ''no markup''],
             calls = []\<rparr>"
  have h1: "apply_mapping (Suc (Suc 0)) mapping
              \<lparr>md = [''dataset/nrd:rights'' \<mapsto> VStr ''no markup''], calls = []\<rparr> = Return ?s"
    by (rule rights_only_pass)
  have h2: "rights_block sample_XML (md ?s)
     = Raise XMLSyntaxError
         [''dataset/nrd:rights'' \<mapsto> VStr ''no markup'', ''rights'' \<mapsto> VStr ''no markup'']"
    by (simp add: rights_block_def sample_XML_def)
  from rights_failure_swallowed [OF h1 h2] h1 h2 show ?thesis by simp
qed

section \<open>C3: a repeated element\<close>

text \<open>
  C3 says that after projecting a repeated element with \<open>source.count = N \<ge> 1\<close> every
  key \<open>dest.0\<close> to \<open>dest.(N-1)\<close> exists. In the scenario record the creator has
  count \<open>2\<close> and no key \<open>dataset/nrd:creator.0\<close>: the projection returns with
  \<open>creator.count = 2\<close> written and no key \<open>creator.0\<close>.
\<close>

theorem repeated_element_counterexample:
  "''dataset/nrd:creator'' \<notin> dom scenario_record \<and>
   scenario_record ''dataset/nrd:creator.count'' = Some (VInt 2) \<and>
   copy_element 2 ''dataset/nrd:creator'' ''creator'' \<lparr>md = scenario_record, calls = []\<rparr> None
     = Return \<lparr>md = scenario_record(''creator.count'' \<mapsto> VInt 2), calls = []\<rparr> \<and>
   (scenario_record(''creator.count'' \<mapsto> VInt 2)) ''creator.0'' = None"
  by (simp add: scenario_record_def Let_def indexed_def show_nat_0 show_nat_1 numeral_2_eq_2)

text \<open>
  C3, as the code has it: when \<open>source\<close> is not a key and \<open>source.count = N \<ge> 1\<close>, the
  call \<open>copy_element(source, dest, record)\<close> leaves \<open>dest.count = N\<close> in the record
  (whether it returns or raises), and when it returns, \<open>dest.i\<close> is a key for every
  \<open>i < N\<close> for which \<open>source.i\<close> was a key of the record: source index \<open>i\<close> goes to
  destination index \<open>i\<close>. An index whose key is absent is not promised a key. The call
  does return, on any stack that is deep enough, when the record is finite, neither
  of \<open>source\<close> and \<open>dest\<close> is a prefix of the other, and every count below \<open>source\<close>
  is an integer.
\<close>

theorem repeated_element_count_and_instances:
  assumes "source \<notin> dom (md s)" and "md s (source @ ''.count'') = Some (VInt n)" and "1 \<le> n"
  shows "md (state_of (copy_element (Suc d) source dest s None)) (dest @ ''.count'') = Some (VInt n) \<and>
         (\<forall>s'. copy_element (Suc d) source dest s None = Return s' \<longrightarrow>
            (\<forall>i < nat n. indexed source i \<in> dom (md s) \<longrightarrow> indexed dest i \<in> dom (md s'))) \<and>
         (finite (dom (md s)) \<and> \<not> prefix source dest \<and> \<not> prefix dest source \<and>
          (\<forall>k c. prefix source k \<and> md s (k @ ''.count'') = Some c \<longrightarrow> (\<exists>i. c = VInt i)) \<longrightarrow>
            (\<exists>D. \<forall>d \<ge> D. \<exists>s'. copy_element d source dest s None = Return s'))"
  using repeated_count_kept [OF assms] repeated_instances_exist [OF assms]
    finite_record_returns [of s source dest]
  by blast

theorem repeated_element_count_and_instances_witness:
  "''s'' \<notin> dom (md \<lparr>md = [''s.count'' \<mapsto> VInt 2, ''s.1'' \<mapsto> VStr ''b''], calls = []\<rparr>) \<and>
   md \<lparr>md = [''s.count'' \<mapsto> VInt 2, ''s.1'' \<mapsto> VStr ''b''], calls = []\<rparr> (''s'' @ ''.count'')
     = Some (VInt 2) \<and>
   (1::int) \<le> 2 \<and>
   copy_element (Suc 2) ''s'' ''t'' \<lparr>md = [''s.count'' \<mapsto> VInt 2, ''s.1'' \<mapsto> VStr ''b''], calls = []\<rparr>
     None
     = Return \<lparr>md = [''s.count'' \<mapsto> VInt 2, ''s.1'' \<mapsto> VStr ''b'', ''t.count'' \<mapsto> VInt 2,
                     ''t.1'' \<mapsto> VStr ''b''], calls = []\<rparr> \<and>
   md (state_of (copy_element (Suc 2) ''s'' ''t''
                   \<lparr>md = [''s.count'' \<mapsto> VInt 2, ''s.1'' \<mapsto> VStr ''b''], calls = []\<rparr> None))
     (''t'' @ ''.count'') = Some (VInt 2) \<and>
   (1::nat) < nat 2 \<and>
   indexed ''s'' 1 \<in> dom (md \<lparr>md = [''s.count'' \<mapsto> VInt 2, ''s.1'' \<mapsto> VStr ''b''], calls = []\<rparr>) \<and>
   indexed ''t'' 1
     \<in> dom (md \<lparr>md = [''s.count'' \<mapsto> VInt 2, ''s.1'' \<mapsto> VStr ''b'', ''t.count'' \<mapsto> VInt 2,
                     ''t.1'' \<mapsto> VStr ''b''], calls = []\<rparr>)"
proof -
  let ?s = "\<lparr>md = [''s.count'' \<mapsto> VInt 2, ''s.1'' \<mapsto> VStr ''b''], calls = []\<rparr>"
  let ?s' = "\<lparr>md = [''s.count'' \<mapsto> VInt 2, ''s.1'' \<mapsto> VStr ''b'', ''t.count'' \<mapsto> VInt 2,
                    ''t.1'' \<mapsto> VStr ''b''], calls = []\<rparr>"
  have h1: "''s'' \<notin> dom (md ?s)" and h2: "md ?s (''s'' @ ''.count'') = Some (VInt 2)"
    and h3: "(1::int) \<le> 2"
    by simp_all
  have run: "copy_element (Suc 2) ''s'' ''t'' ?s None = Return ?s'"
    by (simp add: Let_def indexed_def show_nat_0 show_nat_1 numeral_2_eq_2)
  have i: "(1::nat) < nat 2" "indexed ''s'' 1 \<in> dom (md ?s)"
    by (simp_all add: indexed_def show_nat_1)
  from repeated_element_count_and_instances [OF h1 h2 h3, of 2 "''t''"] run i
  have "md (state_of (copy_element (Suc 2) ''s'' ''t'' ?s None)) (''t'' @ ''.count'') = Some (VInt 2)"
    and "indexed ''t'' 1 \<in> dom (md ?s')"
    by blast+
  with h1 h2 h3 run i show ?thesis by blast
qed

section \<open>C4: language precedence and resource override\<close>

text \<open>
  C4 says that for every record in which \<open>x/language\<close>, \<open>x/@lang\<close> and \<open>x/@xml:lang\<close>
  are present the projected \<open>dest/language\<close> is the value of \<open>x/@xml:lang\<close>, and that
  with \<open>x = text\<close> and \<open>x/@rdf:resource = http://ex\<close> the projected \<open>dest\<close> is
  \<open>http://ex\<close>. Each variant is projected by \<open>copy_element\<close> itself, so a variant that
  has a resource of its own is overwritten by it: with \<open>x/@xml:lang/@rdf:resource\<close> in
  the record the projected \<open>d/language\<close> is that resource and not \<open>sv\<close>. And the
  variants are read after \<open>dest\<close> has been written: on the record of the second
  example, with the key \<open>x/@rdf:resource\<close> as \<open>dest\<close>, the scalar text replaces the
  resource before the resource is read, and the projected \<open>dest\<close> is \<open>text\<close>.
\<close>

theorem language_precedence_counterexample:
  "nested_language_record ''x'' = Some (VStr ''text'') \<and>
   nested_language_record ''x/language'' = Some (VStr ''en'') \<and>
   nested_language_record ''x/@lang'' = Some (VStr ''fi'') \<and>
   nested_language_record ''x/@xml:lang'' = Some (VStr ''sv'') \<and>
   copy_element 4 ''x'' ''d'' \<lparr>md = nested_language_record, calls = []\<rparr> None
     = Return \<lparr>md = nested_language_record
                      (''d'' \<mapsto> VStr ''text'', ''d/language'' \<mapsto> VStr ''http://l''),
               calls = []\<rparr> \<and>
   resource_record ''x'' = Some (VStr ''text'') \<and>
   resource_record ''x/@rdf:resource'' = Some (VStr ''http://ex'') \<and>
   copy_element 4 ''x'' ''x/@rdf:resource'' \<lparr>md = resource_record, calls = []\<rparr> None
     = Return \<lparr>md = resource_record(''x/@rdf:resource'' \<mapsto> VStr ''text''), calls = []\<rparr>"
  by (simp add: nested_language_record_def resource_record_def eval_nat_numeral)

text \<open>
  C4, as the code has it: when \<open>source\<close> is a key with value \<open>v\<close>, no key lies below
  any of the four variant keys \<open>source/language\<close>, \<open>source/@lang\<close>,
  \<open>source/@xml:lang\<close>, \<open>source/@rdf:resource\<close>, and \<open>dest\<close> is none of those four
  keys and lies below none of them, then \<open>copy_element(source, dest, record)\<close> with at
  least three stack frames returns, and the record differs from the one before in two
  keys only: \<open>dest\<close> holds \<open>source/@rdf:resource\<close> if that key is present and \<open>v\<close>
  otherwise, and \<open>dest/language\<close> holds the last present one of \<open>source/language\<close>,
  \<open>source/@lang\<close>, \<open>source/@xml:lang\<close> (its old value if none is present). With
  \<open>x/language = en\<close>, \<open>x/@lang = fi\<close>, \<open>x/@xml:lang = sv\<close> the projected language is
  \<open>sv\<close>, also when \<open>dest\<close> is \<open>x\<close> itself; with \<open>x = text\<close> and
  \<open>x/@rdf:resource = http://ex\<close> the projected \<open>dest\<close> is \<open>http://ex\<close>.
\<close>

theorem scalar_projection_order:
  assumes "md s source = Some v"
    and "leaf_variants (md s) source"
    and "clear_of_variants source dest"
  shows "copy_element (Suc (Suc (Suc d))) source dest s None
         = Return (s\<lparr>md := (md s)
             (dest \<mapsto> (case md s (source @ ''/@rdf:resource'') of None \<Rightarrow> v | Some r \<Rightarrow> r),
              dest @ ''/language'' :=
                (case md s (source @ ''/@xml:lang'') of
                   Some l \<Rightarrow> Some l
                 | None \<Rightarrow>
                     (case md s (source @ ''/@lang'') of
                        Some l \<Rightarrow> Some l
                      | None \<Rightarrow>
                          (case md s (source @ ''/language'') of
                             Some l \<Rightarrow> Some l
                           | None \<Rightarrow> md s (dest @ ''/language'')))))\<rparr>)"
  using assms by (rule scalar_leaf)

theorem scalar_projection_order_witness:
  "md \<lparr>md = language_record, calls = []\<rparr> ''x'' = Some (VStr ''text'') \<and>
   leaf_variants (md \<lparr>md = language_record, calls = []\<rparr>) ''x'' \<and>
   clear_of_variants ''x'' ''d'' \<and>
   copy_element (Suc (Suc (Suc 0))) ''x'' ''d'' \<lparr>md = language_record, calls = []\<rparr> None
     = Return \<lparr>md = language_record(''d'' \<mapsto> VStr ''text'', ''d/language'' \<mapsto> VStr ''sv''),
               calls = []\<rparr> \<and>
   clear_of_variants ''x'' ''x'' \<and>
   copy_element (Suc (Suc (Suc 0))) ''x'' ''x'' \<lparr>md = language_record, calls = []\<rparr> None
     = Return \<lparr>md = language_record(''x/language'' \<mapsto> VStr ''sv''), calls = []\<rparr> \<and>
   md \<lparr>md = resource_record, calls = []\<rparr> ''x'' = Some (VStr ''text'') \<and>
   leaf_variants (md \<lparr>md = resource_record, calls = []\<rparr>) ''x'' \<and>
   copy_element (Suc (Suc (Suc 0))) ''x'' ''d'' \<lparr>md = resource_record, calls = []\<rparr> None
     = Return \<lparr>md = resource_record(''d'' \<mapsto> VStr ''http://ex''), calls = []\<rparr>"
proof -
  let ?s = "\<lparr>md = language_record, calls = []\<rparr>"
  let ?r = "\<lparr>md = resource_record, calls = []\<rparr>"
  have s1: "md ?s ''x'' = Some (VStr ''text'')" and r1: "md ?r ''x'' = Some (VStr ''text'')"
    by (simp_all add: language_record_def resource_record_def)
  have s2: "leaf_variants (md ?s) ''x''" and r2: "leaf_variants (md ?r) ''x''"
    by (auto simp: leaf_variants_def variants_def language_record_def resource_record_def)
  have p: "clear_of_variants ''x'' ''d''" and q: "clear_of_variants ''x'' ''x''"
    by (simp_all add: clear_of_variants_def variants_def)
  have "(resource_record(''d'' \<mapsto> VStr ''http://ex'')) (''d'' @ ''/language'' := None)
        = resource_record(''d'' \<mapsto> VStr ''http://ex'')"
    by (rule ext) (simp add: resource_record_def)
  moreover have "language_record(''x'' \<mapsto> VStr ''text'', ''x/language'' \<mapsto> VStr ''sv'')
        = language_record(''x/language'' \<mapsto> VStr ''sv'')"
    by (rule ext) (simp add: language_record_def)
  ultimately show ?thesis
    using scalar_projection_order [OF s1 s2 p, of 0] scalar_projection_order [OF s1 s2 q, of 0]
      scalar_projection_order [OF r1 r2 p, of 0] s1 s2 r1 r2 p q
    by (simp add: language_record_def resource_record_def del: copy_element.simps)
qed

section \<open>C5: callback invocations of a repeated element\<close>




section \<open>C6: idempotence\<close>

text \<open>
  C6 says that invoking \<open>copy_element\<close> again with the same source and destination on
  an already projected record changes nothing. When the destination is a prefix of
  the source the second call reads what the first one wrote: projecting
  \<open>a/language\<close> onto \<open>a\<close> in a record with \<open>a/language = 1\<close> and
  \<open>a/language/language = 2\<close> gives \<open>a = 1\<close> the first time and \<open>a = 2\<close> the second time.
\<close>

theorem idempotence_counterexample:
  "copy_element 3 ''a/language'' ''a'' \<lparr>md = shifting_record, calls = []\<rparr> None
     = Return \<lparr>md = shifting_record(''a'' \<mapsto> VStr ''1'', ''a/language'' \<mapsto> VStr ''2''),
               calls = []\<rparr> \<and>
   copy_element 3 ''a/language'' ''a''
       \<lparr>md = shifting_record(''a'' \<mapsto> VStr ''1'', ''a/language'' \<mapsto> VStr ''2''), calls = []\<rparr> None
     = Return \<lparr>md = shifting_record(''a'' \<mapsto> VStr ''2'', ''a/language'' \<mapsto> VStr ''2''),
               calls = []\<rparr> \<and>
   (shifting_record(''a'' \<mapsto> VStr ''2'', ''a/language'' \<mapsto> VStr ''2'')) ''a''
     \<noteq> (shifting_record(''a'' \<mapsto> VStr ''1'', ''a/language'' \<mapsto> VStr ''2'')) ''a''"
  by (simp add: shifting_record_def eval_nat_numeral)

text \<open>
  C6, as the code has it. The reader is idempotent: for every record and every
  parser, when the reader returns a map, the reader applied to that map returns the
  same map (the sources of all rules and callbacks lie below \<open>dataset\<close> and nothing
  is written there). \<open>copy_element\<close> without a callback is idempotent when neither of
  \<open>source\<close> and \<open>dest\<close> is a prefix of the other: called again on the record it
  returned, with the same arguments, it returns that record unchanged.
\<close>

theorem projection_idempotent:
  "(nrd_metadata_reader d XML record = Inr m \<longrightarrow> nrd_metadata_reader d XML m = Inr m) \<and>
   (\<not> prefix source dest \<and> \<not> prefix dest source \<and>
    copy_element d' source dest s None = Return s1 \<longrightarrow>
      copy_element d' source dest s1 None = Return s1)"
  using reader_again [of d XML "record" m] copy_element_again [of source dest d' s s1] by blast

theorem projection_idempotent_witness:
  "nrd_metadata_reader (Suc (Suc (Suc 0))) sample_XML scenario_record
     = Inr (scenario_record(''title'' \<mapsto> VStr ''Sample'', ''creator.count'' \<mapsto> VInt 2)) \<and>
   nrd_metadata_reader (Suc (Suc (Suc 0))) sample_XML
       (scenario_record(''title'' \<mapsto> VStr ''Sample'', ''creator.count'' \<mapsto> VInt 2))
     = Inr (scenario_record(''title'' \<mapsto> VStr ''Sample'', ''creator.count'' \<mapsto> VInt 2)) \<and>
   \<not> prefix ''x'' ''d'' \<and> \<not> prefix ''d'' ''x'' \<and>
   copy_element (Suc (Suc (Suc 0))) ''x'' ''d'' \<lparr>md = language_record, calls = []\<rparr> None
     = Return \<lparr>md = language_record(''d'' \<mapsto> VStr ''text'', ''d/language'' \<mapsto> VStr ''sv''),
               calls = []\<rparr> \<and>
   copy_element (Suc (Suc (Suc 0))) ''x'' ''d''
       \<lparr>md = language_record(''d'' \<mapsto> VStr ''text'', ''d/language'' \<mapsto> VStr ''sv''), calls = []\<rparr> None
     = Return \<lparr>md = language_record(''d'' \<mapsto> VStr ''text'', ''d/language'' \<mapsto> VStr ''sv''),
               calls = []\<rparr>"
proof -
  let ?m = "scenario_record(''title'' \<mapsto> VStr ''Sample'', ''creator.count'' \<mapsto> VInt 2)"
  let ?s = "\<lparr>md = language_record, calls = []\<rparr>"
  let ?s1 = "\<lparr>md = language_record(''d'' \<mapsto> VStr ''text'', ''d/language'' \<mapsto> VStr ''sv''),
              calls = []\<rparr>"
  have h1: "nrd_metadata_reader (Suc (Suc (Suc 0))) sample_XML scenario_record = Inr ?m"
    by (rule scenario_reader)
  have p: "\<not> prefix ''x'' ''d''" "\<not> prefix ''d'' ''x''"
    by simp_all
  have h2: "copy_element (Suc (Suc (Suc 0))) ''x'' ''d'' ?s None = Return ?s1"
    by (simp add: language_record_def)
  from projection_idempotent
         [of "Suc (Suc (Suc 0))" sample_XML scenario_record "?m" "''x''" "''d''"
             "Suc (Suc (Suc 0))" "?s" "?s1"]
    h1 h2 p
  show ?thesis by blast
qed

section \<open>C7: no guard on count or depth\<close>

text \<open>
  C7 says that the Path Copier enforces a maximum count and a maximum depth and fails
  with \<open>MalformedRecordError\<close> beyond them. The source has no such guard: a record
  whose only key is \<open>a.count = 1000000\<close> is projected and the call returns, with
  \<open>b.count = 1000000\<close> written.
\<close>

theorem copy_element_no_guard_counterexample:
  "copy_element 2 ''a'' ''b'' \<lparr>md = [''a.count'' \<mapsto> VInt 1000000], calls = []\<rparr> None
   = Return \<lparr>md = [''a.count'' \<mapsto> VInt 1000000, ''b.count'' \<mapsto> VInt 1000000], calls = []\<rparr>"
  using count_only_record [of 1000000 0] by (simp add: numeral_2_eq_2)

text \<open>
  C7, as the code has it. \<open>copy_element\<close> without a callback raises nothing but the
  interpreter's \<open>RecursionError\<close> (no stack frame left) and \<open>TypeError\<close> (a count that
  is not an integer), so never a \<open>MalformedRecordError\<close>. A count \<open>n \<ge> 1\<close> of any size,
  over instances that are absent, is accepted: with two frames the call returns,
  having written only \<open>b.count = n\<close>. The depth of the recursion is bounded by the
  record alone: when the record is finite and neither of \<open>source\<close> and \<open>dest\<close> is a
  prefix of the other, a stack that is deep enough never overflows; when \<open>dest\<close> lies
  below \<open>source\<close> there may be no bound at all, as in projecting \<open>a\<close> onto \<open>a.0\<close> in
  the record \<open>a.count = 1\<close>, which ends in \<open>RecursionError\<close> on every stack.
\<close>

theorem copy_element_no_guard:
  "(copy_element d source dest s None = Raise e s' \<longrightarrow>
      (e = RecursionError \<or> e = TypeError) \<and> e \<noteq> OtherError ''MalformedRecordError'') \<and>
   (0 < n \<longrightarrow>
      copy_element (Suc (Suc d)) ''a'' ''b'' \<lparr>md = [''a.count'' \<mapsto> VInt n], calls = []\<rparr> None
      = Return \<lparr>md = [''a.count'' \<mapsto> VInt n, ''b.count'' \<mapsto> VInt n], calls = []\<rparr>) \<and>
   (finite (dom (md s)) \<and> \<not> prefix source dest \<and> \<not> prefix dest source \<longrightarrow>
      (\<exists>D. \<forall>d' \<ge> D. \<forall>e' s''.
         copy_element d' source dest s None = Raise e' s'' \<longrightarrow> e' = TypeError)) \<and>
   (\<exists>s''. copy_element d ''a'' ''a.0'' \<lparr>md = [''a.count'' \<mapsto> VInt 1], calls = []\<rparr> None
           = Raise RecursionError s'')"
proof -
  have "\<forall>k c e. prefix source k \<and> md s (k @ ''.count'') = Some c \<and> py_range c = Inl e
          \<longrightarrow> e = TypeError"
    by (auto dest: py_range_error)
  from enough_stack_for_finite_record [OF _ _ _ this]
  have "finite (dom (md s)) \<and> \<not> prefix source dest \<and> \<not> prefix dest source \<longrightarrow>
      (\<exists>D. \<forall>d' \<ge> D. \<forall>e' s''.
         copy_element d' source dest s None = Raise e' s'' \<longrightarrow> e' = TypeError)"
    by blast
  with copy_element_own_errors [of d source dest s] count_only_record [of n d]
    unbounded_recursion_example [of d]
  show ?thesis by (auto simp: own_errors_def)
qed

theorem copy_element_no_guard_witness:
  "copy_element 1 ''a'' ''b'' \<lparr>md = [''a.count'' \<mapsto> VStr ''many''], calls = []\<rparr> None
     = Raise TypeError \<lparr>md = [''a.count'' \<mapsto> VStr ''many'', ''b.count'' \<mapsto> VStr ''many''], calls = []\<rparr> \<and>
   (TypeError = RecursionError \<or> TypeError = TypeError) \<and>
   TypeError \<noteq> OtherError ''MalformedRecordError'' \<and>
   (0::int) < 3 \<and>
   copy_element (Suc (Suc 1)) ''a'' ''b'' \<lparr>md = [''a.count'' \<mapsto> VInt 3], calls = []\<rparr> None
     = Return \<lparr>md = [''a.count'' \<mapsto> VInt 3, ''b.count'' \<mapsto> VInt 3], calls = []\<rparr> \<and>
   finite (dom (md \<lparr>md = [''a.count'' \<mapsto> VStr ''many''], calls = []\<rparr>)) \<and>
   \<not> prefix ''a'' ''b'' \<and> \<not> prefix ''b'' ''a'' \<and>
   (\<exists>D. \<forall>d' \<ge> D. \<forall>e' s''.
      copy_element d' ''a'' ''b'' \<lparr>md = [''a.count'' \<mapsto> VStr ''many''], calls = []\<rparr> None
        = Raise e' s'' \<longrightarrow> e' = TypeError)"
proof -
  let ?s = "\<lparr>md = [''a.count'' \<mapsto> VStr ''many''], calls = []\<rparr>"
  let ?s' = "\<lparr>md = [''a.count'' \<mapsto> VStr ''many'', ''b.count'' \<mapsto> VStr ''many''], calls = []\<rparr>"
  have run: "copy_element 1 ''a'' ''b'' ?s None = Raise TypeError ?s'"
    by (simp add: Let_def)
  have fin: "finite (dom (md ?s))" and p: "\<not> prefix ''a'' ''b''" "\<not> prefix ''b'' ''a''"
    by simp_all
  from copy_element_no_guard [of 1 "''a''" "''b''" ?s TypeError ?s' 3] run fin p
  show ?thesis by (simp del: copy_element.simps One_nat_def)
qed

section \<open>C8: an absent or empty element\<close>

text \<open>
  C8: when \<open>source\<close> is not a key of the record and \<open>source.count\<close> is absent or \<open>0\<close>,
  \<open>copy_element(source, dest, record, callback)\<close> returns without an exception and
  leaves the record as it was (no key written, no callback invoked); the two cases
  give the same result. This holds for every callback and whenever the call has a
  stack frame.
\<close>

theorem copy_element_absent_or_zero_noop:
  "source \<notin> dom (md s) \<Longrightarrow>
   md s (source @ ''.count'') = None \<or> md s (source @ ''.count'') = Some (VInt 0) \<Longrightarrow>
   copy_element (Suc d) source dest s callback = Return s"
  by auto

theorem copy_element_absent_or_zero_noop_witness:
  "''x'' \<notin> dom (md \<lparr>md = [''x.count'' \<mapsto> VInt 0, ''y'' \<mapsto> VStr ''kept''], calls = []\<rparr>) \<and>
   md \<lparr>md = [''x.count'' \<mapsto> VInt 0, ''y'' \<mapsto> VStr ''kept''], calls = []\<rparr> (''x'' @ ''.count'')
     = Some (VInt 0) \<and>
   copy_element (Suc 0) ''x'' ''y'' \<lparr>md = [''x.count'' \<mapsto> VInt 0, ''y'' \<mapsto> VStr ''kept''], calls = []\<rparr>
     (Some person_attrs)
     = Return \<lparr>md = [''x.count'' \<mapsto> VInt 0, ''y'' \<mapsto> VStr ''kept''], calls = []\<rparr> \<and>
   ''x'' \<notin> dom (md \<lparr>md = [''y'' \<mapsto> VStr ''kept''], calls = []\<rparr>) \<and>
   md \<lparr>md = [''y'' \<mapsto> VStr ''kept''], calls = []\<rparr> (''x'' @ ''.count'') = None \<and>
   copy_element (Suc 0) ''x'' ''y'' \<lparr>md = [''y'' \<mapsto> VStr ''kept''], calls = []\<rparr> (Some person_attrs)
     = Return \<lparr>md = [''y'' \<mapsto> VStr ''kept''], calls = []\<rparr>"
  using copy_element_absent_or_zero_noop
      [of "''x''" "\<lparr>md = [''x.count'' \<mapsto> VInt 0, ''y'' \<mapsto> VStr ''kept''], calls = []\<rparr>" 0 "''y''"
          "Some person_attrs"]
    copy_element_absent_or_zero_noop
      [of "''x''" "\<lparr>md = [''y'' \<mapsto> VStr ''kept''], calls = []\<rparr>" 0 "''y''" "Some person_attrs"]
  by simp

section \<open>C9: the fallback wrapper\<close>

text \<open>
  C9 as stated fails: the handler builds the log message from the exception before it
  returns the fallback, and an exception whose \<open>__str__\<close> raises leaves the handler by
  that second exception. The wrapped call below raises such a \<open>KeyError\<close> under
  \<open>except KeyError\<close>; the wrapper raises \<open>TypeError\<close> and returns no fallback.
\<close>

theorem ExceptReturn_counterexample:
  "counted_unprintable 0 0 = Exception unprintable 1 \<and>
   is_KeyError (class_of unprintable) \<and>
   ExceptReturn is_KeyError (-1) counted_unprintable 0 0 []
   = Exception (Exc TypeError (Inr ''__str__ returned non-string'')) (1, [(DEBUG, ''call()'')]) \<and>
   ExceptReturn is_KeyError (-1) counted_unprintable 0 0 []
   \<noteq> Value (-1) (1, [(DEBUG, ''call()'')])"
  by (simp add: ExceptReturn_def counted_unprintable_def unprintable_def is_KeyError_def)

text \<open>
  C9, as the code has it: if the wrapped call raises an exception of the given class and
  formatting that exception for the log message succeeds, the wrapper logs the message
  and returns the fallback value, in the world that the one call left (it neither
  raises again nor calls a second time); if formatting the exception raises, the
  wrapper raises that second exception and returns no fallback; an exception of
  another class is raised again as it is; if the call returns, the wrapper returns its
  result and its world unchanged.
\<close>

theorem ExceptReturn_guard:
  "(f args w = Exception e w' \<and> exception (class_of e) \<and> formatted e = Inr msg \<longrightarrow>
      ExceptReturn exception returns f args w log
      = Value returns (w', log @ [(DEBUG, ''call()''), (ERROR, ''Exception occurred: '' @ msg)])) \<and>
   (f args w = Exception e w' \<and> exception (class_of e) \<and> formatted e = Inl e' \<longrightarrow>
      ExceptReturn exception returns f args w log
      = Exception e' (w', log @ [(DEBUG, ''call()'')])) \<and>
   (f args w = Exception e w' \<and> \<not> exception (class_of e) \<longrightarrow>
      ExceptReturn exception returns f args w log
      = Exception e (w', log @ [(DEBUG, ''call()'')])) \<and>
   (f args w = Value r w' \<longrightarrow>
      ExceptReturn exception returns f args w log = Value r (w', log @ [(DEBUG, ''call()'')]))"
  by (simp add: ExceptReturn_def)

theorem ExceptReturn_guard_witness:
  "counted_lookup 0 0 = Exception (Exc KeyError (Inr ''0'')) 1 \<and>
   is_KeyError (class_of (Exc KeyError (Inr ''0''))) \<and>
   formatted (Exc KeyError (Inr ''0'')) = Inr ''0'' \<and>
   ExceptReturn is_KeyError (-1) counted_lookup 0 0 []
   = Value (-1) (1, [(DEBUG, ''call()''), (ERROR, ''Exception occurred: 0'')]) \<and>
   counted_unprintable 0 0 = Exception unprintable 1 \<and>
   is_KeyError (class_of unprintable) \<and>
   formatted unprintable = Inl (Exc TypeError (Inr ''__str__ returned non-string'')) \<and>
   ExceptReturn is_KeyError (-1) counted_unprintable 0 0 []
   = Exception (Exc TypeError (Inr ''__str__ returned non-string'')) (1, [(DEBUG, ''call()'')]) \<and>
   is_IndexError (class_of (Exc KeyError (Inr ''0''))) = False \<and>
   ExceptReturn is_IndexError (-1) counted_lookup 0 0 []
   = Exception (Exc KeyError (Inr ''0'')) (1, [(DEBUG, ''call()'')]) \<and>
   counted_lookup 7 0 = Value 7 1 \<and>
   ExceptReturn is_KeyError (-1) counted_lookup 7 0 [] = Value 7 (1, [(DEBUG, ''call()'')])"
  using ExceptReturn_guard [of counted_lookup 0 0 "Exc KeyError (Inr ''0'')" 1 is_KeyError "''0''"
      "-1" "[]" "Exc TypeError (Inr [])" 7]
    ExceptReturn_guard [of counted_unprintable 0 0 unprintable 1 is_KeyError "''0''"
      "-1" "[]" "Exc TypeError (Inr ''__str__ returned non-string'')" 7]
    ExceptReturn_guard [of counted_lookup 0 0 "Exc KeyError (Inr ''0'')" 1 is_IndexError "''0''"
      "-1" "[]" "Exc TypeError (Inr [])" 7]
    ExceptReturn_guard [of counted_lookup 7 0 unprintable 1 is_KeyError "''0''" "-1" "[]"
      "Exc TypeError (Inr [])" 7]
  by (simp add: counted_lookup_def counted_unprintable_def unprintable_def is_KeyError_def
      is_IndexError_def)

section \<open>C10: the frame of the Path Copier\<close>

text \<open>
  C10: \<open>copy_element(source, dest, record)\<close> without a callback deletes no key, and
  every key that does not begin with \<open>dest\<close> keeps its value; so the only keys created
  or overwritten begin with \<open>dest\<close>. This holds for the record as the call leaves it,
  whether it returns or raises.
\<close>

theorem copy_element_frame_property:
  "dom (md s) \<subseteq> dom (md (state_of (copy_element d source dest s None))) \<and>
   (\<forall>k. \<not> prefix dest k \<longrightarrow> md (state_of (copy_element d source dest s None)) k = md s k)"
  using copy_element_frame [of dest s d source] by (simp add: frame_def)

theorem copy_element_frame_property_witness:
  "\<not> prefix ''t'' ''s/language'' \<and>
   md (state_of (copy_element 3 ''s'' ''t''
         \<lparr>md = [''s'' \<mapsto> VStr ''v'', ''s/language'' \<mapsto> VStr ''en''], calls = []\<rparr> None)) ''s/language''
     = Some (VStr ''en'') \<and>
   ''s'' \<in> dom (md (state_of (copy_element 3 ''s'' ''t''
         \<lparr>md = [''s'' \<mapsto> VStr ''v'', ''s/language'' \<mapsto> VStr ''en''], calls = []\<rparr> None)))"
  using copy_element_frame_property
      [of "\<lparr>md = [''s'' \<mapsto> VStr ''v'', ''s/language'' \<mapsto> VStr ''en''], calls = []\<rparr>" 3 "''s''" "''t''"]
  by auto

end
